theory Spec2Isabelle
  imports Complex_Main "HOL-Library.Word" "HOL-Library.Multiset"
begin

section \<open>Strings and arrays of the speech-recognition module\<close>

text \<open>
  A JavaScript string is a sequence of UTF-16 code units: \<open>length\<close>, \<open>charAt\<close>,
  \<open>split\<close> and the regular expressions of the module (written without the \<open>u\<close> flag)
  all work on code units. Numbers that are scores are modelled as reals, numbers that are
  array indices and counters as naturals, and the result of \<open>indexOf\<close> as an integer,
  since it is \<open>-1\<close> when the element is absent.
\<close>

type_synonym code_unit = "16 word"
type_synonym jsstring = "code_unit list"

subsection \<open>\<open>Array.prototype.indexOf\<close> and \<open>Array.prototype.includes\<close>\<close>

fun indexOf_from :: "'a list \<Rightarrow> 'a \<Rightarrow> nat \<Rightarrow> int" where
  "indexOf_from [] w k = - 1"
| "indexOf_from (x # xs) w k = (if x = w then int k else indexOf_from xs w (Suc k))"

definition indexOf :: "'a list \<Rightarrow> 'a \<Rightarrow> int" where
  "indexOf xs w = indexOf_from xs w 0"

fun array_includes :: "'a list \<Rightarrow> 'a \<Rightarrow> bool" where
  "array_includes [] w = False"
| "array_includes (x # xs) w = (x = w \<or> array_includes xs w)"

section \<open>The word aligner: \<open>compareWordArrays\<close>\<close>

record 'a indexed =
  word :: 'a
  index :: nat

record 'a matched =
  word :: 'a
  expectedIndex :: nat
  actualIndex :: int

record 'a word_matches =
  score :: real
  matches :: "'a matched list"
  missing :: "'a indexed list"
  extra :: "'a indexed list"
  totalExpected :: nat
  totalActual :: nat
  matchedCount :: nat

text \<open>
  The first \<open>forEach\<close> of \<open>compareWordArrays\<close>: the loop variable \<open>index\<close> (here \<open>idx\<close>) and the three
  variables the callback updates (\<open>matches\<close>, \<open>missing\<close>, \<open>matchCount\<close>) are threaded
  through the recursion; \<open>push\<close> appends at the end.
\<close>

fun find_matches ::
  "'a list \<Rightarrow> 'a list \<Rightarrow> nat \<Rightarrow> 'a matched list \<Rightarrow> 'a indexed list \<Rightarrow> nat
     \<Rightarrow> 'a matched list \<times> 'a indexed list \<times> nat" where
  "find_matches [] actual idx mts mis matchCount = (mts, mis, matchCount)"
| "find_matches (expectedWord # rest) actual idx mts mis matchCount =
     (let ai = indexOf actual expectedWord in
      if ai \<noteq> - 1
      then find_matches rest actual (Suc idx)
             (mts @ [\<lparr>matched.word = expectedWord, expectedIndex = idx, actualIndex = ai\<rparr>])
             mis (Suc matchCount)
      else find_matches rest actual (Suc idx) mts
             (mis @ [\<lparr>indexed.word = expectedWord, index = idx\<rparr>]) matchCount)"

text \<open>The second \<open>forEach\<close>: the words of \<open>actual\<close> that \<open>expected\<close> does not include.\<close>

fun find_extra :: "'a list \<Rightarrow> 'a list \<Rightarrow> nat \<Rightarrow> 'a indexed list \<Rightarrow> 'a indexed list" where
  "find_extra [] expected idx ext = ext"
| "find_extra (actualWord # rest) expected idx ext =
     (if \<not> array_includes expected actualWord
      then find_extra rest expected (Suc idx)
             (ext @ [\<lparr>indexed.word = actualWord, index = idx\<rparr>])
      else find_extra rest expected (Suc idx) ext)"

definition compareWordArrays :: "'a list \<Rightarrow> 'a list \<Rightarrow> 'a word_matches" where
  "compareWordArrays expected actual =
     (case find_matches expected actual 0 [] [] 0 of
        (mts, mis, matchCount) \<Rightarrow>
          \<lparr>score = (if length expected > 0
                    then real matchCount / real (length expected) else 0),
           matches = mts,
           missing = mis,
           extra = find_extra actual expected 0 [],
           totalExpected = length expected,
           totalActual = length actual,
           matchedCount = matchCount\<rparr>)"

section \<open>The text normalizer: \<open>normalizeArabicText\<close>\<close>

text \<open>
  The character class of the first \<open>replace\<close>:
  the code units U+064B to U+065F, U+0670, and U+06D6 to U+06ED.
\<close>

definition is_tashkeel :: "code_unit \<Rightarrow> bool" where
  "is_tashkeel c \<longleftrightarrow>
     (0x064B \<le> c \<and> c \<le> 0x065F) \<or> c = 0x0670 \<or> (0x06D6 \<le> c \<and> c \<le> 0x06ED)"

text \<open>
  The three letter replacements. The classes in the source are the code units U+0622,
  U+0623, U+0625 (replaced by U+0627, alef), U+0629 (replaced by U+0647, heh) and
  U+0649, U+0626 (replaced by U+064A, yeh).
\<close>

definition is_alef_variant :: "code_unit \<Rightarrow> bool" where
  "is_alef_variant c \<longleftrightarrow> c = 0x0622 \<or> c = 0x0623 \<or> c = 0x0625"

definition is_teh_marbuta :: "code_unit \<Rightarrow> bool" where
  "is_teh_marbuta c \<longleftrightarrow> c = 0x0629"

definition is_yeh_variant :: "code_unit \<Rightarrow> bool" where
  "is_yeh_variant c \<longleftrightarrow> c = 0x0649 \<or> c = 0x0626"

definition normalize_alef :: "code_unit \<Rightarrow> code_unit" where
  "normalize_alef c = (if is_alef_variant c then 0x0627 else c)"

definition normalize_teh :: "code_unit \<Rightarrow> code_unit" where
  "normalize_teh c = (if is_teh_marbuta c then 0x0647 else c)"

definition normalize_yeh :: "code_unit \<Rightarrow> code_unit" where
  "normalize_yeh c = (if is_yeh_variant c then 0x064A else c)"

text \<open>
  The class \<open>\s\<close> of a regular expression, which is also the set of code units that
  \<open>trim\<close> strips: the WhiteSpace and LineTerminator productions of ECMAScript (tab, line
  feed, vertical tab, form feed, carriage return, space, no-break space, the other space
  separators of Unicode, the line and paragraph separators and the byte order mark).
\<close>

definition is_space :: "code_unit \<Rightarrow> bool" where
  "is_space c \<longleftrightarrow>
     (0x0009 \<le> c \<and> c \<le> 0x000D) \<or> c = 0x0020 \<or> c = 0x00A0 \<or> c = 0x1680
     \<or> (0x2000 \<le> c \<and> c \<le> 0x200A) \<or> c = 0x2028 \<or> c = 0x2029 \<or> c = 0x202F
     \<or> c = 0x205F \<or> c = 0x3000 \<or> c = 0xFEFF"

text \<open>\<^verbatim>\<open>.replace(/\s+/g, ' ')\<close>: every maximal run of white space becomes one U+0020.\<close>

function collapse_spaces :: "jsstring \<Rightarrow> jsstring" where
  "collapse_spaces [] = []"
| "collapse_spaces (c # cs) =
     (if is_space c then 0x0020 # collapse_spaces (dropWhile is_space cs)
      else c # collapse_spaces cs)"
  by pat_completeness auto
termination
  by (relation "measure length") (auto simp: length_dropWhile_le less_Suc_eq_le)

definition trim :: "jsstring \<Rightarrow> jsstring" where
  "trim s = rev (dropWhile is_space (rev (dropWhile is_space s)))"

text \<open>
  \<open>String.prototype.toLowerCase\<close> belongs to the platform, not to the module: its table
  is the Unicode case mapping. It is a parameter of the model. The two facts about it
  that the normalizer relies on are collected in \<open>lower_casing\<close>: lower-casing a
  lower-cased string changes nothing, and lower-casing leaves every code unit of the Arabic
  block (U+0600 to U+06FF) and every white-space code unit where it is, replacing each
  other code unit by one or more code units that are neither Arabic nor white space.
\<close>

definition is_caseless :: "code_unit \<Rightarrow> bool" where
  "is_caseless c \<longleftrightarrow> (0x0600 \<le> c \<and> c \<le> 0x06FF) \<or> is_space c"

definition case_image :: "code_unit \<Rightarrow> jsstring \<Rightarrow> bool" where
  "case_image c w \<longleftrightarrow>
     (if is_caseless c then w = [c] else w \<noteq> [] \<and> (\<forall>d \<in> set w. \<not> is_caseless d))"

definition lower_casing :: "(jsstring \<Rightarrow> jsstring) \<Rightarrow> bool" where
  "lower_casing lc \<longleftrightarrow>
     (\<forall>s. lc (lc s) = lc s) \<and>
     (\<forall>s. \<exists>ws. list_all2 case_image s ws \<and> lc s = concat ws)"

text \<open>
  The Basic Latin part of the case mapping (\<open>A\<close> to \<open>Z\<close> become \<open>a\<close> to \<open>z\<close>), one
  instance of the parameter.
\<close>

definition ascii_lower :: "code_unit \<Rightarrow> code_unit" where
  "ascii_lower c = (if 0x0041 \<le> c \<and> c \<le> 0x005A then c + 0x0020 else c)"

definition ascii_toLowerCase :: "jsstring \<Rightarrow> jsstring" where
  "ascii_toLowerCase s = map ascii_lower s"

text \<open>
  \<open>normalizeArabicText\<close>: the guard \<^verbatim>\<open>if (!text) return ''\<close> is taken by the empty
  string, the only falsy string.
\<close>

definition normalizeArabicText :: "(jsstring \<Rightarrow> jsstring) \<Rightarrow> jsstring \<Rightarrow> jsstring" where
  "normalizeArabicText toLowerCase text =
     (if text = [] then []
      else toLowerCase (trim (collapse_spaces
             (map normalize_yeh (map normalize_teh (map normalize_alef
                (filter (\<lambda>c. \<not> is_tashkeel c) text)))))))"

subsection \<open>Shapes of strings used in the proofs about the normalizer\<close>

text \<open>
  \<open>single_spaces s\<close>: every white-space code unit of \<open>s\<close> is U+0020 and is not followed by
  another one. \<open>spaced prev s\<close>: in addition \<open>s\<close> does not end in white space, and does not
  start with it when \<open>prev\<close> holds (\<open>prev\<close> says that the code unit before \<open>s\<close> was white
  space, or that \<open>s\<close> is the start of the string, which then is not empty).
\<close>

fun single_spaces :: "jsstring \<Rightarrow> bool" where
  "single_spaces [] = True"
| "single_spaces [c] = (is_space c \<longrightarrow> c = 0x0020)"
| "single_spaces (c # d # r) =
     ((is_space c \<longrightarrow> c = 0x0020 \<and> \<not> is_space d) \<and> single_spaces (d # r))"

fun spaced :: "bool \<Rightarrow> jsstring \<Rightarrow> bool" where
  "spaced prev [] = (\<not> prev)"
| "spaced prev (c # cs) =
     (if is_space c then \<not> prev \<and> c = 0x0020 \<and> spaced True cs else spaced False cs)"

definition no_variants :: "jsstring \<Rightarrow> bool" where
  "no_variants s \<longleftrightarrow>
     (\<forall>c \<in> set s. \<not> is_tashkeel c \<and> \<not> is_alef_variant c
                    \<and> \<not> is_teh_marbuta c \<and> \<not> is_yeh_variant c)"

text \<open>The steps of \<open>normalizeArabicText\<close> that come before \<open>toLowerCase\<close>.\<close>

definition before_lower_casing :: "jsstring \<Rightarrow> jsstring" where
  "before_lower_casing text =
     trim (collapse_spaces
       (map normalize_yeh (map normalize_teh (map normalize_alef
          (filter (\<lambda>c. \<not> is_tashkeel c) text)))))"

section \<open>The lexical distance engine: \<open>levenshteinDistance\<close>\<close>

text \<open>
  A JavaScript array is an object that maps indices to values; an index never written
  reads as \<open>undefined\<close>, and an assignment beyond the end extends the array. The matrix is
  therefore a map from row indices to rows, each a map from column indices to numbers.
  Reading a cell of a row that does not exist throws a TypeError, and arithmetic on
  \<open>undefined\<close> leaves the numbers: in both cases the model returns \<open>None\<close>.
\<close>

type_synonym 'a js_array = "nat \<rightharpoonup> 'a"
type_synonym matrix = "(nat js_array) js_array"

definition cell_get :: "matrix \<Rightarrow> nat \<Rightarrow> nat \<Rightarrow> nat option" where
  "cell_get m i j = (case m i of None \<Rightarrow> None | Some row \<Rightarrow> row j)"

definition cell_set :: "matrix \<Rightarrow> nat \<Rightarrow> nat \<Rightarrow> nat \<Rightarrow> matrix option" where
  "cell_set m i j v = (case m i of None \<Rightarrow> None | Some row \<Rightarrow> Some (m(i \<mapsto> row(j \<mapsto> v))))"

text \<open>\<open>charAt\<close> returns the empty string when the index is out of range.\<close>

definition charAt :: "'a list \<Rightarrow> nat \<Rightarrow> 'a list" where
  "charAt s i = (if i < length s then [s ! i] else [])"

text \<open>\<^verbatim>\<open>for (let i = 0; i <= str2.length; i++) matrix[i] = [i];\<close>\<close>

function init_rows :: "nat \<Rightarrow> nat \<Rightarrow> matrix \<Rightarrow> matrix" where
  "init_rows len2 i m =
     (if i \<le> len2 then init_rows len2 (Suc i) (m(i \<mapsto> [0 \<mapsto> i])) else m)"
  by pat_completeness auto
termination
  by (relation "measure (\<lambda>(len2, i, m). Suc len2 - i)") auto

text \<open>\<^verbatim>\<open>for (let j = 0; j <= str1.length; j++) matrix[0][j] = j;\<close>\<close>

function init_first_row :: "nat \<Rightarrow> nat \<Rightarrow> matrix \<Rightarrow> matrix option" where
  "init_first_row len1 j m =
     (if j \<le> len1
      then (case cell_set m 0 j j of None \<Rightarrow> None
            | Some m' \<Rightarrow> init_first_row len1 (Suc j) m')
      else Some m)"
  by pat_completeness auto
termination
  by (relation "measure (\<lambda>(len1, j, m). Suc len1 - j)") auto

text \<open>The body of the inner loop: the value written to \<open>matrix[i][j]\<close>.\<close>

definition cell_value :: "'a list \<Rightarrow> 'a list \<Rightarrow> matrix \<Rightarrow> nat \<Rightarrow> nat \<Rightarrow> nat option" where
  "cell_value str1 str2 m i j =
     (if charAt str2 (i - 1) = charAt str1 (j - 1)
      then cell_get m (i - 1) (j - 1)
      else (case cell_get m (i - 1) (j - 1) of None \<Rightarrow> None
            | Some diag \<Rightarrow>
          (case cell_get m i (j - 1) of None \<Rightarrow> None
            | Some left \<Rightarrow>
          (case cell_get m (i - 1) j of None \<Rightarrow> None
            | Some up \<Rightarrow> Some (min (diag + 1) (min (left + 1) (up + 1)))))))"

text \<open>\<^verbatim>\<open>for (let j = 1; j <= str1.length; j++) { ... }\<close>\<close>

function fill_row :: "'a list \<Rightarrow> 'a list \<Rightarrow> nat \<Rightarrow> nat \<Rightarrow> matrix \<Rightarrow> matrix option" where
  "fill_row str1 str2 i j m =
     (if j \<le> length str1
      then (case cell_value str1 str2 m i j of None \<Rightarrow> None
            | Some v \<Rightarrow>
          (case cell_set m i j v of None \<Rightarrow> None
            | Some m' \<Rightarrow> fill_row str1 str2 i (Suc j) m'))
      else Some m)"
  by pat_completeness auto
termination
  by (relation "measure (\<lambda>(str1, str2, i, j, m). Suc (length str1) - j)") auto

text \<open>\<^verbatim>\<open>for (let i = 1; i <= str2.length; i++) { ... }\<close>\<close>

function fill_rows :: "'a list \<Rightarrow> 'a list \<Rightarrow> nat \<Rightarrow> matrix \<Rightarrow> matrix option" where
  "fill_rows str1 str2 i m =
     (if i \<le> length str2
      then (case fill_row str1 str2 i 1 m of None \<Rightarrow> None
            | Some m' \<Rightarrow> fill_rows str1 str2 (Suc i) m')
      else Some m)"
  by pat_completeness auto
termination
  by (relation "measure (\<lambda>(str1, str2, i, m). Suc (length str2) - i)") auto

declare init_rows.simps [simp del] init_first_row.simps [simp del]
  fill_row.simps [simp del] fill_rows.simps [simp del]

definition levenshteinDistance :: "'a list \<Rightarrow> 'a list \<Rightarrow> nat option" where
  "levenshteinDistance str1 str2 =
     (case init_first_row (length str1) 0 (init_rows (length str2) 0 Map.empty) of
        None \<Rightarrow> None
      | Some m0 \<Rightarrow>
     (case fill_rows str1 str2 1 m0 of None \<Rightarrow> None
      | Some m \<Rightarrow> cell_get m (length str2) (length str1)))"

definition calculateLevenshteinSimilarity :: "'a list \<Rightarrow> 'a list \<Rightarrow> real option" where
  "calculateLevenshteinSimilarity str1 str2 =
     (case levenshteinDistance str1 str2 of None \<Rightarrow> None
      | Some distance \<Rightarrow>
          (let maxLength = max (length str1) (length str2)
           in Some (if maxLength = 0 then 1 else 1 - real distance / real maxLength)))"

subsection \<open>Edit distance, as the specification words it\<close>

text \<open>
  One edit inserts, deletes or substitutes a single element at any position; \<open>edits n a b\<close>
  says that \<open>n\<close> edits in a row transform \<open>a\<close> into \<open>b\<close>. The edit distance is the least
  such \<open>n\<close>.
\<close>

inductive edit_step :: "'a list \<Rightarrow> 'a list \<Rightarrow> bool" where
  insertion: "edit_step (u @ v) (u @ c # v)"
| deletion: "edit_step (u @ c # v) (u @ v)"
| substitution: "c \<noteq> c' \<Longrightarrow> edit_step (u @ c # v) (u @ c' # v)"

inductive edits :: "nat \<Rightarrow> 'a list \<Rightarrow> 'a list \<Rightarrow> bool" where
  edits_none: "edits 0 a a"
| edits_more: "edit_step a b \<Longrightarrow> edits n b c \<Longrightarrow> edits (Suc n) a c"

text \<open>The recurrence of the matrix, read from the front of the two lists.\<close>

fun lev :: "'a list \<Rightarrow> 'a list \<Rightarrow> nat" where
  "lev [] ys = length ys"
| "lev xs [] = length xs"
| "lev (x # xs) (y # ys) =
     (if x = y then lev xs ys
      else min (lev xs ys + 1) (min (lev xs (y # ys) + 1) (lev (x # xs) ys + 1)))"

subsection \<open>The invariant of the matrix\<close>

text \<open>
  \<open>matrix[i][j]\<close> is meant to hold the distance between the first \<open>j\<close> elements of
  \<open>str1\<close> and the first \<open>i\<close> elements of \<open>str2\<close>; \<open>filled str1 str2 i j m\<close> says that
  this is so for the rows before \<open>i\<close>, for row \<open>i\<close> before column \<open>j\<close>, and for column 0.
\<close>

definition prefix_distance :: "'a list \<Rightarrow> 'a list \<Rightarrow> nat \<Rightarrow> nat \<Rightarrow> nat" where
  "prefix_distance str1 str2 i j = lev (rev (take j str1)) (rev (take i str2))"

definition filled :: "'a list \<Rightarrow> 'a list \<Rightarrow> nat \<Rightarrow> nat \<Rightarrow> matrix \<Rightarrow> bool" where
  "filled str1 str2 i j m \<longleftrightarrow>
     (\<forall>i' \<le> length str2. \<exists>row. m i' = Some row \<and>
        (\<forall>j' \<le> length str1. i' < i \<or> (i' = i \<and> j' < j) \<or> j' = 0
           \<longrightarrow> row j' = Some (prefix_distance str1 str2 i' j')))"

section \<open>The scorer: \<open>compareTexts\<close>\<close>

text \<open>\<^verbatim>\<open>s.split(' ')\<close>, generalised to any separator element.\<close>

fun js_split :: "'a \<Rightarrow> 'a list \<Rightarrow> 'a list list" where
  "js_split sep [] = [[]]"
| "js_split sep (c # cs) =
     (if c = sep then [] # js_split sep cs
      else (case js_split sep cs of [] \<Rightarrow> [[c]] | w # ws \<Rightarrow> (c # w) # ws))"

record comparison_details =
  expectedWords :: "jsstring list"
  actualWords :: "jsstring list"
  matchedWords :: "jsstring matched list"
  missingWords :: "jsstring indexed list"
  extraWords :: "jsstring indexed list"

text \<open>
  The object \<open>compareTexts\<close> returns has the properties \<open>score\<close> and \<open>type\<close> on both
  paths; \<open>wordMatches\<close>, \<open>characterSimilarity\<close> and \<open>details\<close> exist on the fuzzy path
  only, so they are optional here. Scores are computed in real arithmetic.
\<close>

record comparison =
  score :: real
  type :: string
  wordMatches :: "jsstring word_matches option"
  characterSimilarity :: "real option"
  details :: "comparison_details option"

definition compareTexts ::
  "(jsstring \<Rightarrow> jsstring) \<Rightarrow> jsstring \<Rightarrow> jsstring \<Rightarrow> comparison option" where
  "compareTexts toLowerCase expected actual =
     (let normalizedExpected = normalizeArabicText toLowerCase expected;
          normalizedActual = normalizeArabicText toLowerCase actual
      in if normalizedExpected = normalizedActual
         then Some \<lparr>score = 1, type = ''exact'', wordMatches = None,
                    characterSimilarity = None, details = None\<rparr>
         else
           (let expectedWords = filter (\<lambda>w. length w > 0) (js_split 0x0020 normalizedExpected);
                actualWords = filter (\<lambda>w. length w > 0) (js_split 0x0020 normalizedActual);
                wordMatches = compareWordArrays expectedWords actualWords
            in case calculateLevenshteinSimilarity normalizedExpected normalizedActual of
                 None \<Rightarrow> None
               | Some charSimilarity \<Rightarrow>
                   (let combinedScore = word_matches.score wordMatches * 0.7
                                          + charSimilarity * 0.3
                    in Some \<lparr>score = combinedScore, type = ''fuzzy'',
                             wordMatches = Some wordMatches,
                             characterSimilarity = Some charSimilarity,
                             details = Some \<lparr>expectedWords = expectedWords,
                                             actualWords = actualWords,
                                             matchedWords = matches wordMatches,
                                             missingWords = missing wordMatches,
                                             extraWords = extra wordMatches\<rparr>\<rparr>)))"

section \<open>The recognition session controller\<close>

text \<open>
  The controller is event driven and single threaded: every handler runs to completion.
  Its state is the fields of the \<open>ArabicSpeechRecognition\<close> object that the handlers read
  or write, together with the part of the browser they act on: the timers that are pending
  (\<open>setTimeout\<close> returns a fresh positive id, \<open>clearTimeout\<close> removes the timer) and a
  trace of what the controller did to the outside (events emitted to listeners and calls
  to the recognizer). Durations are not measured: a pending timer may fire at any later
  moment, so every run of the program is a run of the model.
\<close>

record options =
  enableAutoStop :: bool
  silenceTimeout :: nat
  maxRecordingTime :: nat

definition default_options :: options where
  "default_options = \<lparr>enableAutoStop = True, silenceTimeout = 3000, maxRecordingTime = 15000\<rparr>"

text \<open>The two closures handed to \<open>setTimeout\<close>.\<close>

datatype timer_callback = SilenceExpired | MaxRecordingExpired

text \<open>
  \<open>Emit name data\<close> is \<open>this.emit(name, data)\<close>, with the empty string for no data and the
  error code for the data of an \<open>error\<close> event; the others are calls to the recognizer and
  to the tracks of the media stream.
\<close>

datatype action =
  Emit string string
| RecognitionStart
| RecognitionStop
| RecognitionAbort
| StopTracks

record session =
  options :: options
  isListening :: bool
  hasReceivedSpeech :: bool
  lastSpeechTime :: "nat option"
  silenceTimer :: "nat option"
  maxRecordingTimer :: "nat option"
  hasAudioContext :: bool
  hasMediaStream :: bool
  timers :: "(nat \<times> nat \<times> timer_callback) list"
  nextTimerId :: nat
  trace :: "action list"

text \<open>The constructor, for given options; \<open>ctx\<close> says whether an AudioContext exists.\<close>

definition new_session :: "options \<Rightarrow> bool \<Rightarrow> session" where
  "new_session opts ctx =
     \<lparr>options = opts, isListening = False, hasReceivedSpeech = False,
      lastSpeechTime = None, silenceTimer = None, maxRecordingTimer = None,
      hasAudioContext = ctx, hasMediaStream = False,
      timers = [], nextTimerId = 1, trace = []\<rparr>"

definition emit :: "string \<Rightarrow> string \<Rightarrow> session \<Rightarrow> session" where
  "emit name data s = s\<lparr>trace := trace s @ [Emit name data]\<rparr>"

definition call :: "action \<Rightarrow> session \<Rightarrow> session" where
  "call a s = s\<lparr>trace := trace s @ [a]\<rparr>"

definition setTimeout :: "timer_callback \<Rightarrow> nat \<Rightarrow> session \<Rightarrow> nat \<times> session" where
  "setTimeout cb delay s =
     (nextTimerId s,
      s\<lparr>timers := timers s @ [(nextTimerId s, delay, cb)], nextTimerId := Suc (nextTimerId s)\<rparr>)"

definition clearTimeout :: "nat \<Rightarrow> session \<Rightarrow> session" where
  "clearTimeout tid s = s\<lparr>timers := filter (\<lambda>t. fst t \<noteq> tid) (timers s)\<rparr>"

text \<open>
  \<^verbatim>\<open>if (this.silenceTimer)\<close> holds for a timer id other than 0 (\<open>null\<close> and 0 are falsy).
\<close>

definition clearSilenceTimer :: "session \<Rightarrow> session" where
  "clearSilenceTimer s =
     (case silenceTimer s of
        None \<Rightarrow> s
      | Some tid \<Rightarrow> if tid = 0 then s else (clearTimeout tid s)\<lparr>silenceTimer := None\<rparr>)"

definition clearTimers :: "session \<Rightarrow> session" where
  "clearTimers s =
     (let s1 = clearSilenceTimer s
      in case maxRecordingTimer s1 of
           None \<Rightarrow> s1
         | Some tid \<Rightarrow> if tid = 0 then s1 else (clearTimeout tid s1)\<lparr>maxRecordingTimer := None\<rparr>)"

definition cleanupAudioEnhancement :: "session \<Rightarrow> session" where
  "cleanupAudioEnhancement s =
     (if hasMediaStream s then (call StopTracks s)\<lparr>hasMediaStream := False\<rparr> else s)"

definition stop :: "session \<Rightarrow> session" where
  "stop s =
     cleanupAudioEnhancement (clearTimers (if isListening s then call RecognitionStop s else s))"

definition abort :: "session \<Rightarrow> session" where
  "abort s =
     cleanupAudioEnhancement (clearTimers (if isListening s then call RecognitionAbort s else s))"

definition startSilenceTimer :: "session \<Rightarrow> session" where
  "startSilenceTimer s =
     (if \<not> enableAutoStop (options s) then s
      else (case setTimeout SilenceExpired (silenceTimeout (options s)) (clearSilenceTimer s) of
              (tid, s') \<Rightarrow> s'\<lparr>silenceTimer := Some tid\<rparr>))"

text \<open>The bodies of the two timer callbacks.\<close>

fun run_callback :: "timer_callback \<Rightarrow> session \<Rightarrow> session" where
  "run_callback SilenceExpired s =
     (if isListening s \<and> hasReceivedSpeech s
      then emit ''timeout'' ''silence'' (stop s) else s)"
| "run_callback MaxRecordingExpired s =
     (if isListening s
      then emit ''timeout'' ''max_recording_time'' (stop s) else s)"

text \<open>
  The handlers that \<open>setupEventListeners\<close> installs on the recognizer; \<open>now\<close> is the value
  of \<open>Date.now()\<close>.
\<close>

definition onstart :: "nat \<Rightarrow> session \<Rightarrow> session" where
  "onstart now s =
     (case setTimeout MaxRecordingExpired (maxRecordingTime (options s))
             (s\<lparr>isListening := True, hasReceivedSpeech := False, lastSpeechTime := Some now\<rparr>) of
        (tid, s') \<Rightarrow> emit ''start'' [] (s'\<lparr>maxRecordingTimer := Some tid\<rparr>))"

definition onend :: "session \<Rightarrow> session" where
  "onend s = emit ''end'' [] (clearTimers (s\<lparr>isListening := False\<rparr>))"

definition onnomatch :: "session \<Rightarrow> session" where
  "onnomatch s = emit ''nomatch'' [] s"

definition onspeechstart :: "nat \<Rightarrow> session \<Rightarrow> session" where
  "onspeechstart now s =
     emit ''speechstart'' []
       (clearSilenceTimer (s\<lparr>hasReceivedSpeech := True, lastSpeechTime := Some now\<rparr>))"

definition onspeechend :: "nat \<Rightarrow> session \<Rightarrow> session" where
  "onspeechend now s =
     emit ''speechend'' [] (startSilenceTimer (s\<lparr>lastSpeechTime := Some now\<rparr>))"

text \<open>A pending timer fires: it leaves the pending timers and its callback runs.\<close>

definition timer_fires :: "nat \<Rightarrow> session \<Rightarrow> session" where
  "timer_fires tid s =
     (case map_of (timers s) tid of
        None \<Rightarrow> s
      | Some (delay, cb) \<Rightarrow> run_callback cb (clearTimeout tid s))"

text \<open>
  \<open>start\<close> depends on the browser in two places: whether \<open>getUserMedia\<close> grants the
  microphone, and whether \<open>recognition.start()\<close> throws (then with which message). Both
  are inputs. The specification's \<open>AlreadyActiveError\<close> is the one value of
  \<open>session_error\<close>; a call of \<open>start\<close> that raised it would return \<open>Inl AlreadyActiveError\<close>.
  \<open>start\<close> itself catches what \<open>recognition.start()\<close> throws and returns a boolean.
\<close>

datatype session_error = AlreadyActiveError

record browser =
  microphoneGranted :: bool
  recognitionStartThrows :: "string option"

definition setupAudioEnhancement :: "browser \<Rightarrow> session \<Rightarrow> session" where
  "setupAudioEnhancement env s =
     (if \<not> hasAudioContext s then s
      else if microphoneGranted env
      then emit ''audioEnhanced'' [] (s\<lparr>hasMediaStream := True\<rparr>)
      else s)"

definition start :: "browser \<Rightarrow> session \<Rightarrow> (session_error + bool) \<times> session" where
  "start env s =
     (if isListening s then (Inr False, s)
      else
        (let s1 = setupAudioEnhancement env s
         in case recognitionStartThrows env of
              None \<Rightarrow> (Inr True, call RecognitionStart s1)
            | Some message \<Rightarrow> (Inr False, emit ''error'' ''start_failed'' s1)))"

text \<open>What can happen to a controller, and a run of it.\<close>

datatype event =
  CallStart browser
| CallStop
| CallAbort
| OnStart nat
| OnEnd
| OnNoMatch
| OnSpeechStart nat
| OnSpeechEnd nat
| TimerFires nat

fun step :: "event \<Rightarrow> session \<Rightarrow> session" where
  "step (CallStart env) s = snd (start env s)"
| "step CallStop s = stop s"
| "step CallAbort s = abort s"
| "step (OnStart now) s = onstart now s"
| "step OnEnd s = onend s"
| "step OnNoMatch s = onnomatch s"
| "step (OnSpeechStart now) s = onspeechstart now s"
| "step (OnSpeechEnd now) s = onspeechend now s"
| "step (TimerFires tid) s = timer_fires tid s"

fun run :: "event list \<Rightarrow> session \<Rightarrow> session" where
  "run [] s = s"
| "run (e # es) s = run es (step e s)"

fun is_speech_start :: "event \<Rightarrow> bool" where
  "is_speech_start (OnSpeechStart now) = True"
| "is_speech_start e = False"

section \<open>Properties of the word aligner\<close>

lemma indexOf_from_absent: "w \<notin> set xs \<Longrightarrow> indexOf_from xs w k = - 1"
  by (induction xs arbitrary: k) auto

lemma indexOf_from_present:
  "w \<in> set xs \<Longrightarrow>
     \<exists>j. indexOf_from xs w k = int (k + j) \<and> j < length xs \<and> xs ! j = w \<and> (\<forall>i<j. xs ! i \<noteq> w)"
proof (induction xs arbitrary: k)
  case Nil
  then show ?case by simp
next
  case (Cons x xs)
  show ?case
  proof (cases "x = w")
    case True
    then show ?thesis by (intro exI[of _ 0]) simp
  next
    case False
    with Cons.prems have "w \<in> set xs" by simp
    from Cons.IH[OF this, of "Suc k"] obtain j where
      j: "indexOf_from xs w (Suc k) = int (Suc k + j)" "j < length xs" "xs ! j = w"
         "\<forall>i<j. xs ! i \<noteq> w" by blast
    have "\<forall>i<Suc j. (x # xs) ! i \<noteq> w"
      using False j(4) by (auto simp: nth_Cons split: nat.splits)
    with False j show ?thesis by (intro exI[of _ "Suc j"]) simp
  qed
qed

lemma indexOf_absent_iff: "indexOf xs w = - 1 \<longleftrightarrow> w \<notin> set xs"
proof
  assume "indexOf xs w = - 1"
  show "w \<notin> set xs"
  proof
    assume "w \<in> set xs"
    from indexOf_from_present[OF this, of 0] obtain j where "indexOf xs w = int j"
      by (auto simp: indexOf_def)
    with \<open>indexOf xs w = - 1\<close> show False by simp
  qed
next
  assume "w \<notin> set xs" then show "indexOf xs w = - 1"
    by (simp add: indexOf_def indexOf_from_absent)
qed

lemma indexOf_first:
  assumes "w \<in> set xs"
  shows "indexOf xs w = int (LEAST j. j < length xs \<and> xs ! j = w)"
proof -
  from indexOf_from_present[OF assms, of 0] obtain j where
    j: "indexOf xs w = int j" "j < length xs" "xs ! j = w" "\<forall>i<j. xs ! i \<noteq> w"
    by (auto simp: indexOf_def)
  have "(LEAST j. j < length xs \<and> xs ! j = w) = j"
    using j(2,3,4) by (intro Least_equality) (auto simp: not_less[symmetric])
  with j(1) show ?thesis by simp
qed

lemma array_includes_iff: "array_includes xs w \<longleftrightarrow> w \<in> set xs"
  by (induction xs) auto

lemma find_matches_eq:
  "find_matches ex act k mts mis c =
     (mts @ map (\<lambda>(i, w). \<lparr>matched.word = w, expectedIndex = i, actualIndex = indexOf act w\<rparr>)
              (filter (\<lambda>(i, w). w \<in> set act) (enumerate k ex)),
      mis @ map (\<lambda>(i, w). \<lparr>indexed.word = w, index = i\<rparr>)
              (filter (\<lambda>(i, w). w \<notin> set act) (enumerate k ex)),
      c + length (filter (\<lambda>(i, w). w \<in> set act) (enumerate k ex)))"
  by (induction ex arbitrary: k mts mis c) (simp_all add: Let_def indexOf_absent_iff)

lemma find_extra_eq:
  "find_extra act ex k ext =
     ext @ map (\<lambda>(i, w). \<lparr>indexed.word = w, index = i\<rparr>)
              (filter (\<lambda>(i, w). w \<notin> set ex) (enumerate k act))"
  by (induction act arbitrary: k ext) (simp_all add: array_includes_iff)

lemma compareWordArrays_fields:
  "matches (compareWordArrays expected actual) =
     map (\<lambda>(i, w). \<lparr>matched.word = w, expectedIndex = i, actualIndex = indexOf actual w\<rparr>)
       (filter (\<lambda>(i, w). w \<in> set actual) (enumerate 0 expected))"
  "missing (compareWordArrays expected actual) =
     map (\<lambda>(i, w). \<lparr>indexed.word = w, index = i\<rparr>)
       (filter (\<lambda>(i, w). w \<notin> set actual) (enumerate 0 expected))"
  "extra (compareWordArrays expected actual) =
     map (\<lambda>(i, w). \<lparr>indexed.word = w, index = i\<rparr>)
       (filter (\<lambda>(i, w). w \<notin> set expected) (enumerate 0 actual))"
  "matchedCount (compareWordArrays expected actual) =
     length (filter (\<lambda>(i, w). w \<in> set actual) (enumerate 0 expected))"
  "word_matches.score (compareWordArrays expected actual) =
     (if expected \<noteq> []
      then real (matchedCount (compareWordArrays expected actual)) / real (length expected)
      else 0)"
  "totalExpected (compareWordArrays expected actual) = length expected"
  "totalActual (compareWordArrays expected actual) = length actual"
  by (simp_all add: compareWordArrays_def find_matches_eq find_extra_eq)

text \<open>
  Claim C2. For each expected word in order, \<open>compareWordArrays\<close> records a match with
  the word, its expected index and the index of the word's first occurrence in \<open>actual\<close>
  when the word occurs in \<open>actual\<close>, and otherwise records it as missing with its
  expected index; every actual word that occurs nowhere in \<open>expected\<close> is recorded as
  extra with its actual index; the count of matches is \<open>matchedCount\<close>, and the score is
  that count divided by the length of \<open>expected\<close>, or 0 when \<open>expected\<close> is empty.
\<close>

theorem compareWordArrays_alignment:
  "matches (compareWordArrays expected actual) =
     map (\<lambda>(i, w). \<lparr>matched.word = w, expectedIndex = i,
                     actualIndex = int (LEAST j. j < length actual \<and> actual ! j = w)\<rparr>)
       (filter (\<lambda>(i, w). w \<in> set actual) (enumerate 0 expected))
   \<and> missing (compareWordArrays expected actual) =
     map (\<lambda>(i, w). \<lparr>indexed.word = w, index = i\<rparr>)
       (filter (\<lambda>(i, w). w \<notin> set actual) (enumerate 0 expected))
   \<and> extra (compareWordArrays expected actual) =
     map (\<lambda>(j, w). \<lparr>indexed.word = w, index = j\<rparr>)
       (filter (\<lambda>(j, w). w \<notin> set expected) (enumerate 0 actual))
   \<and> matchedCount (compareWordArrays expected actual) =
       length (matches (compareWordArrays expected actual))
   \<and> word_matches.score (compareWordArrays expected actual) =
     (if expected \<noteq> []
      then real (matchedCount (compareWordArrays expected actual)) / real (length expected)
      else 0)"
proof -
  have "map (\<lambda>(i, w). \<lparr>matched.word = w, expectedIndex = i, actualIndex = indexOf actual w\<rparr>)
          (filter (\<lambda>(i, w). w \<in> set actual) (enumerate 0 expected))
      = map (\<lambda>(i, w). \<lparr>matched.word = w, expectedIndex = i,
                     actualIndex = int (LEAST j. j < length actual \<and> actual ! j = w)\<rparr>)
          (filter (\<lambda>(i, w). w \<in> set actual) (enumerate 0 expected))"
    by (rule map_cong) (auto simp: indexOf_first)
  then show ?thesis
    by (simp add: compareWordArrays_fields)
qed

theorem compareWordArrays_alignment_witness:
  "missing (compareWordArrays [10, 20, 10, 30 :: nat] [20, 20, 10, 50])
     = [\<lparr>indexed.word = 30, index = 3\<rparr>]
   \<and> extra (compareWordArrays [10, 20, 10, 30 :: nat] [20, 20, 10, 50])
     = [\<lparr>indexed.word = 50, index = 3\<rparr>]
   \<and> map expectedIndex (matches (compareWordArrays [10, 20, 10, 30 :: nat] [20, 20, 10, 50]))
     = [0, 1, 2]"
  using compareWordArrays_alignment [of "[10, 20, 10, 30 :: nat]" "[20, 20, 10, 50]"]
  by (simp add: enumerate_eq_zip upt_rec)

lemma mset_fst_partition:
  "mset (map fst (filter P xs)) + mset (map fst (filter (\<lambda>x. \<not> P x) xs)) = mset (map fst xs)"
  by (induction xs) auto

text \<open>
  Claim C10. The alignment partitions the expected sequence: matches and missing entries
  together are as many as the expected words, the expected indices they carry are exactly
  \<open>0, \<dots>, length expected - 1\<close>, each once, \<open>matchedCount\<close> is the number of matches, and each
  match's \<open>actualIndex\<close> is a valid index of \<open>actual\<close> at which the matched word stands.
\<close>

theorem compareWordArrays_partition:
  "length (matches (compareWordArrays expected actual))
     + length (missing (compareWordArrays expected actual)) = length expected
   \<and> mset (map expectedIndex (matches (compareWordArrays expected actual))
           @ map index (missing (compareWordArrays expected actual)))
       = mset [0..<length expected]
   \<and> matchedCount (compareWordArrays expected actual)
       = length (matches (compareWordArrays expected actual))
   \<and> (\<forall>m \<in> set (matches (compareWordArrays expected actual)).
         0 \<le> actualIndex m \<and> nat (actualIndex m) < length actual
         \<and> actual ! nat (actualIndex m) = matched.word m
         \<and> expectedIndex m < length expected
         \<and> expected ! expectedIndex m = matched.word m)"
proof -
  let ?E = "enumerate 0 expected"
  let ?P = "\<lambda>(i, w). w \<in> set actual"
  have nP: "(\<lambda>(i, w). w \<notin> set actual) = (\<lambda>x. \<not> ?P x)" by auto
  have len: "length (filter ?P ?E) + length (filter (\<lambda>x. \<not> ?P x) ?E) = length expected"
    using sum_length_filter_compl[of ?P ?E] by simp
  have idx: "map expectedIndex (matches (compareWordArrays expected actual)) = map fst (filter ?P ?E)"
    "map index (missing (compareWordArrays expected actual)) = map fst (filter (\<lambda>x. \<not> ?P x) ?E)"
    by (simp_all add: compareWordArrays_fields nP case_prod_beta comp_def)
  have ms: "mset (map expectedIndex (matches (compareWordArrays expected actual))
           @ map index (missing (compareWordArrays expected actual)))
       = mset [0..<length expected]"
  proof -
    have "mset (map fst (filter ?P ?E) @ map fst (filter (\<lambda>x. \<not> ?P x) ?E)) = mset (map fst ?E)"
      using mset_fst_partition[of ?P ?E] by (simp only: mset_append)
    moreover have "map fst ?E = [0..<length expected]"
      by (simp add: map_fst_enumerate)
    ultimately show ?thesis unfolding idx by (simp only:)
  qed
  have valid: "0 \<le> actualIndex m \<and> nat (actualIndex m) < length actual
         \<and> actual ! nat (actualIndex m) = matched.word m
         \<and> expectedIndex m < length expected
         \<and> expected ! expectedIndex m = matched.word m"
    if "m \<in> set (matches (compareWordArrays expected actual))" for m
  proof -
    from that obtain i w where iw: "(i, w) \<in> set ?E" "w \<in> set actual"
      and m: "m = \<lparr>matched.word = w, expectedIndex = i, actualIndex = indexOf actual w\<rparr>"
      by (auto simp: compareWordArrays_fields)
    from indexOf_from_present[OF iw(2), of 0] obtain j where
      j: "indexOf actual w = int j" "j < length actual" "actual ! j = w"
      by (auto simp: indexOf_def)
    from iw(1) have "i < length expected" "expected ! i = w"
      by (auto simp: in_set_enumerate_eq)
    with j m show ?thesis by simp
  qed
  show ?thesis
    using len ms valid by (simp add: compareWordArrays_fields nP)
qed

theorem compareWordArrays_partition_witness:
  "\<lparr>matched.word = 10, expectedIndex = 2, actualIndex = 2\<rparr>
      \<in> set (matches (compareWordArrays [10, 20, 10, 30 :: nat] [20, 20, 10, 50]))
   \<and> [20, 20, 10, 50 :: nat] ! nat 2 = 10
   \<and> length (matches (compareWordArrays [10, 20, 10, 30 :: nat] [20, 20, 10, 50])) = 3
   \<and> length (missing (compareWordArrays [10, 20, 10, 30 :: nat] [20, 20, 10, 50])) = 1"
  using compareWordArrays_partition [of "[10, 20, 10, 30 :: nat]" "[20, 20, 10, 50]"]
  by (simp add: compareWordArrays_def indexOf_def)

section \<open>Properties of the distance engine\<close>

subsection \<open>The recurrence computes the least number of edits\<close>

lemma lev_Nil2 [simp]: "lev xs [] = length xs"
  by (cases xs) simp_all

lemma lev_sym: "lev xs ys = lev ys xs"
  by (induction xs ys rule: lev.induct) (simp_all add: min.commute min.left_commute)

lemma lev_refl [simp]: "lev xs xs = 0"
  by (induction xs) simp_all

lemma lev_front:
  "lev x b \<le> Suc (lev (c # x) b) \<and> lev (c # x) b \<le> Suc (lev x b)"
proof (induction "length x + length b" arbitrary: x b c rule: less_induct)
  case less
  show ?case
  proof (cases b)
    case Nil
    then show ?thesis by simp
  next
    case (Cons e b')
    have small: "length x + length b' < length x + length b"
      using Cons by simp
    have A: "lev x b' \<le> Suc (lev (d # x) b')" for d
      using less[OF small, of d] by simp
    have small': "length b' + length x < length x + length b"
      using Cons by simp
    have C: "lev x b' \<le> Suc (lev x (e # b'))"
      using less[OF small', of e] by (simp add: lev_sym[of x])
    have D: "lev x (e # b') \<le> Suc (lev x b')"
      using less[OF small', of e] by (simp add: lev_sym[of x])
    show ?thesis
    proof (cases "c = e")
      case True
      with Cons C D show ?thesis by simp
    next
      case False
      have "lev x (e # b') \<le> Suc (Suc (lev (c # x) b'))"
        using D A[of c] by linarith
      with Cons False D show ?thesis by (simp add: min_def)
    qed
  qed
qed

lemma lev_ins: "lev x b \<le> Suc (lev (c # x) b)"
  by (rule lev_front[THEN conjunct1])

lemma lev_del: "lev (c # x) b \<le> Suc (lev x b)"
  by (rule lev_front[THEN conjunct2])

lemma lev_ins2: "lev x b \<le> Suc (lev x (c # b))"
  using lev_ins[of b x c] by (simp add: lev_sym[of x])

lemma lev_sub: "lev (c # v) b \<le> Suc (lev (c' # v) b)"
proof (induction b)
  case Nil
  then show ?case by simp
next
  case (Cons e b)
  have 1: "lev v b \<le> Suc (lev v (e # b))" by (rule lev_ins2)
  have 2: "lev v b \<le> Suc (lev (c' # v) b)" by (rule lev_ins)
  show ?case using Cons 1 2 by (simp add: min_def)
qed

lemma lev_cons_mono:
  assumes "\<And>b. lev x b \<le> Suc (lev y b)"
  shows "lev (c # x) b \<le> Suc (lev (c # y) b)"
proof (induction b)
  case Nil
  show ?case using assms[of "[]"] by simp
next
  case (Cons e b)
  show ?case using Cons assms[of b] assms[of "e # b"] by (simp add: min_def)
qed

lemma lev_prefix_mono:
  assumes "\<And>b. lev x b \<le> Suc (lev y b)"
  shows "lev (u @ x) b \<le> Suc (lev (u @ y) b)"
  using assms
proof (induction u arbitrary: b)
  case Nil
  then show ?case by simp
next
  case (Cons c u)
  have "\<And>b. lev (u @ x) b \<le> Suc (lev (u @ y) b)"
    using Cons by blast
  from lev_cons_mono[of "u @ x" "u @ y" c b, OF this] show ?case by simp
qed

lemma edit_step_lev: "edit_step x y \<Longrightarrow> lev x b \<le> Suc (lev y b)"
proof (induction rule: edit_step.induct)
  case (insertion u v c)
  show ?case by (rule lev_prefix_mono) (rule lev_ins)
next
  case (deletion u c v)
  show ?case by (rule lev_prefix_mono) (rule lev_del)
next
  case (substitution c c' u v)
  show ?case by (rule lev_prefix_mono) (rule lev_sub)
qed

lemma edits_lev_le: "edits n a b \<Longrightarrow> lev a b \<le> n"
proof (induction rule: edits.induct)
  case (edits_none a)
  show ?case by simp
next
  case (edits_more a b n c)
  from edit_step_lev[OF edits_more.hyps(1), of c] edits_more.IH show ?case by linarith
qed

lemma edit_step_Cons: "edit_step x y \<Longrightarrow> edit_step (c # x) (c # y)"
proof (induction rule: edit_step.induct)
  case (insertion u v d)
  show ?case using edit_step.insertion[of "c # u" v d] by simp
next
  case (deletion u d v)
  show ?case using edit_step.deletion[of "c # u" d v] by simp
next
  case (substitution d d' u v)
  show ?case using edit_step.substitution[OF substitution, of "c # u" v] by simp
qed

lemma edits_Cons: "edits n x y \<Longrightarrow> edits n (c # x) (c # y)"
  by (induction rule: edits.induct) (auto intro: edits.intros edit_step_Cons)

lemma edit_step_ins_front: "edit_step x (c # x)"
  using edit_step.insertion[of "[]" x c] by simp

lemma edit_step_del_front: "edit_step (c # x) x"
  using edit_step.deletion[of "[]" c x] by simp

lemma edit_step_sub_front: "c \<noteq> c' \<Longrightarrow> edit_step (c # x) (c' # x)"
  using edit_step.substitution[of c c' "[]" x] by simp

lemma edits_insert_all: "edits (length ys) [] ys"
proof (induction ys)
  case Nil
  show ?case by (simp add: edits.edits_none)
next
  case (Cons y ys)
  have "edit_step [] [y]" by (rule edit_step_ins_front)
  moreover have "edits (length ys) [y] (y # ys)" using Cons by (rule edits_Cons)
  ultimately show ?case by (simp add: edits.edits_more)
qed

lemma edits_delete_all: "edits (length xs) xs []"
proof (induction xs)
  case Nil
  show ?case by (simp add: edits.edits_none)
next
  case (Cons x xs)
  have "edit_step (x # xs) xs" by (rule edit_step_del_front)
  with Cons show ?case by (simp add: edits.edits_more)
qed

lemma edits_lev: "edits (lev xs ys) xs ys"
proof (induction xs ys rule: lev.induct)
  case (1 ys)
  show ?case by (simp add: edits_insert_all)
next
  case (2 v va)
  show ?case using edits_delete_all[of "v # va"] by simp
next
  case (3 x xs y ys)
  show ?case
  proof (cases "x = y")
    case True
    with 3(1) show ?thesis by (simp add: edits_Cons)
  next
    case False
    have d: "edits (Suc (lev xs ys)) (x # xs) (y # ys)"
      using edits.edits_more[OF edit_step_sub_front[OF False] edits_Cons[OF 3(2)[OF False]]] .
    have l: "edits (Suc (lev xs (y # ys))) (x # xs) (y # ys)"
      using edits.edits_more[OF edit_step_del_front 3(3)[OF False]] .
    have u: "edits (Suc (lev (x # xs) ys)) (x # xs) (y # ys)"
      using edits.edits_more[OF edit_step_ins_front edits_Cons[OF 3(4)[OF False]]] .
    show ?thesis using False d l u by (simp add: min_def)
  qed
qed

lemma edit_step_rev: "edit_step x y \<Longrightarrow> edit_step (rev x) (rev y)"
proof (induction rule: edit_step.induct)
  case (insertion u v c)
  show ?case using edit_step.insertion[of "rev v" "rev u" c] by simp
next
  case (deletion u c v)
  show ?case using edit_step.deletion[of "rev v" c "rev u"] by simp
next
  case (substitution c c' u v)
  show ?case using edit_step.substitution[OF substitution, of "rev v" "rev u"] by simp
qed

lemma edits_rev: "edits n x y \<Longrightarrow> edits n (rev x) (rev y)"
  by (induction rule: edits.induct) (auto intro: edits.intros edit_step_rev)

lemma lev_rev_min:
  "edits (lev (rev a) (rev b)) a b" "edits n a b \<Longrightarrow> lev (rev a) (rev b) \<le> n"
proof -
  from edits_rev[OF edits_lev[of "rev a" "rev b"]] show "edits (lev (rev a) (rev b)) a b"
    by simp
  assume "edits n a b"
  from edits_lev_le[OF edits_rev[OF this]] show "lev (rev a) (rev b) \<le> n" .
qed

lemma lev_le_max: "lev xs ys \<le> max (length xs) (length ys)"
  by (induction xs ys rule: lev.induct) (auto simp: min_def max_def)

subsection \<open>The matrix computes the recurrence\<close>

lemma prefix_distance_0 [simp]:
  "j \<le> length str1 \<Longrightarrow> prefix_distance str1 str2 0 j = j"
  "i \<le> length str2 \<Longrightarrow> prefix_distance str1 str2 i 0 = i"
  by (simp_all add: prefix_distance_def)

lemma prefix_distance_Suc:
  assumes "i < length str2" "j < length str1"
  shows "prefix_distance str1 str2 (Suc i) (Suc j) =
     (if str2 ! i = str1 ! j then prefix_distance str1 str2 i j
      else min (prefix_distance str1 str2 i j + 1)
             (min (prefix_distance str1 str2 (Suc i) j + 1)
                  (prefix_distance str1 str2 i (Suc j) + 1)))"
  using assms by (auto simp: prefix_distance_def take_Suc_conv_app_nth)

lemma init_rows_apply:
  "init_rows len2 i m i' = (if i \<le> i' \<and> i' \<le> len2 then Some [0 \<mapsto> i'] else m i')"
proof (induction len2 i m rule: init_rows.induct)
  case (1 len2 i m)
  show ?case
  proof (cases "i \<le> len2")
    case True
    have "init_rows len2 i m i' = init_rows len2 (Suc i) (m(i \<mapsto> [0 \<mapsto> i])) i'"
      using True by (subst init_rows.simps) simp
    also have "\<dots> = (if Suc i \<le> i' \<and> i' \<le> len2 then Some [0 \<mapsto> i']
                      else (m(i \<mapsto> [0 \<mapsto> i])) i')"
      by (rule 1[OF True])
    also have "\<dots> = (if i \<le> i' \<and> i' \<le> len2 then Some [0 \<mapsto> i'] else m i')"
      using True by (cases "i' = i") auto
    finally show ?thesis .
  next
    case False
    have "init_rows len2 i m i' = m i'"
      using False by (subst init_rows.simps) simp
    with False show ?thesis by auto
  qed
qed

lemma init_first_row_result:
  assumes "m 0 = Some row"
  shows "\<exists>m' row'. init_first_row len1 j m = Some m' \<and> (\<forall>i'. 0 < i' \<longrightarrow> m' i' = m i')
           \<and> m' 0 = Some row'
           \<and> (\<forall>j'. row' j' = (if j \<le> j' \<and> j' \<le> len1 then Some j' else row j'))"
  using assms
proof (induction len1 j m arbitrary: row rule: init_first_row.induct)
  case (1 len1 j m)
  show ?case
  proof (cases "j \<le> len1")
    case False
    then show ?thesis using 1(2) by (subst init_first_row.simps) auto
  next
    case True
    let ?m1 = "m(0 \<mapsto> row(j \<mapsto> j))"
    have cs: "cell_set m 0 j j = Some ?m1" using 1(2) by (simp add: cell_set_def)
    have "?m1 0 = Some (row(j \<mapsto> j))" by simp
    from 1(1)[OF True cs this] obtain m' row' where
      r: "init_first_row len1 (Suc j) ?m1 = Some m'" "\<forall>i'. 0 < i' \<longrightarrow> m' i' = ?m1 i'"
         "m' 0 = Some row'"
         "\<forall>j'. row' j' = (if Suc j \<le> j' \<and> j' \<le> len1 then Some j' else (row(j \<mapsto> j)) j')"
      by blast
    have "init_first_row len1 j m = Some m'"
      using True cs r(1) by (subst init_first_row.simps) simp
    moreover have "\<forall>i'. 0 < i' \<longrightarrow> m' i' = m i'" using r(2) by simp
    moreover have "\<forall>j'. row' j' = (if j \<le> j' \<and> j' \<le> len1 then Some j' else row j')"
      using r(4) True by (auto simp: Suc_le_eq)
    ultimately show ?thesis using r(3) by blast
  qed
qed

lemma filled_init:
  "\<exists>m0. init_first_row (length str1) 0 (init_rows (length str2) 0 Map.empty) = Some m0
         \<and> filled str1 str2 1 1 m0"
proof -
  let ?m = "init_rows (length str2) 0 Map.empty"
  have rows: "?m i' = Some [0 \<mapsto> i']" if "i' \<le> length str2" for i'
    using that by (simp add: init_rows_apply)
  have "?m 0 = Some [0 \<mapsto> 0]" by (rule rows) simp
  from init_first_row_result[of ?m "[0 \<mapsto> 0]" "length str1" 0, OF this] obtain m0 row' where
    r: "init_first_row (length str1) 0 ?m = Some m0" "\<forall>i'. 0 < i' \<longrightarrow> m0 i' = ?m i'"
       "m0 0 = Some row'" "\<forall>j'. row' j' = (if j' \<le> length str1 then Some j' else [0 \<mapsto> 0] j')"
    by auto
  have "filled str1 str2 1 1 m0"
    unfolding filled_def
  proof (intro allI impI)
    fix i' assume i': "i' \<le> length str2"
    show "\<exists>row. m0 i' = Some row \<and>
        (\<forall>j' \<le> length str1. i' < 1 \<or> (i' = 1 \<and> j' < 1) \<or> j' = 0
           \<longrightarrow> row j' = Some (prefix_distance str1 str2 i' j'))"
    proof (cases "i' = 0")
      case True
      then show ?thesis using r(3,4) by auto
    next
      case False
      then have "m0 i' = Some [0 \<mapsto> i']" using r(2) rows[OF i'] by simp
      then show ?thesis using False i' by auto
    qed
  qed
  with r(1) show ?thesis by blast
qed

lemma filled_get:
  assumes "filled str1 str2 i j m" "i' \<le> length str2" "j' \<le> length str1"
    "i' < i \<or> (i' = i \<and> j' < j) \<or> j' = 0"
  shows "cell_get m i' j' = Some (prefix_distance str1 str2 i' j')"
proof -
  from assms(1,2) obtain row where "m i' = Some row"
    "\<forall>j' \<le> length str1. i' < i \<or> (i' = i \<and> j' < j) \<or> j' = 0
           \<longrightarrow> row j' = Some (prefix_distance str1 str2 i' j')"
    unfolding filled_def by blast
  with assms(3,4) show ?thesis unfolding cell_get_def by auto
qed

lemma cell_value_filled:
  assumes f: "filled str1 str2 (Suc i) (Suc j) m" and i: "i < length str2" and j: "j < length str1"
  shows "cell_value str1 str2 m (Suc i) (Suc j) = Some (prefix_distance str1 str2 (Suc i) (Suc j))"
proof -
  have d: "cell_get m i j = Some (prefix_distance str1 str2 i j)"
    using i j by (intro filled_get[OF f]) auto
  have l: "cell_get m (Suc i) j = Some (prefix_distance str1 str2 (Suc i) j)"
    using i j by (intro filled_get[OF f]) auto
  have u: "cell_get m i (Suc j) = Some (prefix_distance str1 str2 i (Suc j))"
    using i j by (intro filled_get[OF f]) auto
  show ?thesis
    using i j by (simp add: cell_value_def charAt_def d l u prefix_distance_Suc)
qed

lemma cell_set_filled:
  assumes f: "filled str1 str2 (Suc i) (Suc j) m" and i: "i < length str2" and j: "j < length str1"
  shows "\<exists>m'. cell_set m (Suc i) (Suc j) (prefix_distance str1 str2 (Suc i) (Suc j)) = Some m'
           \<and> filled str1 str2 (Suc i) (Suc (Suc j)) m'"
proof -
  have "Suc i \<le> length str2" using i by simp
  with f obtain row where row: "m (Suc i) = Some row"
    unfolding filled_def by blast
  let ?v = "prefix_distance str1 str2 (Suc i) (Suc j)"
  let ?m' = "m(Suc i \<mapsto> row(Suc j \<mapsto> ?v))"
  have "cell_set m (Suc i) (Suc j) ?v = Some ?m'" by (simp add: cell_set_def row)
  moreover have "filled str1 str2 (Suc i) (Suc (Suc j)) ?m'"
    unfolding filled_def
  proof (intro allI impI)
    fix i' assume i': "i' \<le> length str2"
    from f i' obtain r where r: "m i' = Some r"
      "\<forall>j' \<le> length str1. i' < Suc i \<or> (i' = Suc i \<and> j' < Suc j) \<or> j' = 0
           \<longrightarrow> r j' = Some (prefix_distance str1 str2 i' j')"
      unfolding filled_def by blast
    show "\<exists>row. ?m' i' = Some row \<and>
        (\<forall>j' \<le> length str1. i' < Suc i \<or> (i' = Suc i \<and> j' < Suc (Suc j)) \<or> j' = 0
           \<longrightarrow> row j' = Some (prefix_distance str1 str2 i' j'))"
    proof (cases "i' = Suc i")
      case True
      with r row have "r = row" by simp
      with r(2) True show ?thesis by (auto simp: less_Suc_eq)
    next
      case False
      with r show ?thesis by auto
    qed
  qed
  ultimately show ?thesis by blast
qed

lemma filled_row_done:
  "filled str1 str2 i j m \<Longrightarrow> length str1 < j \<Longrightarrow> filled str1 str2 (Suc i) 1 m"
  unfolding filled_def by (auto simp: less_Suc_eq)

lemma fill_row_filled:
  assumes "filled str1 str2 (Suc i) (Suc j) m" "i < length str2"
  shows "\<exists>m'. fill_row str1 str2 (Suc i) (Suc j) m = Some m' \<and> filled str1 str2 (Suc (Suc i)) 1 m'"
  using assms
proof (induction "length str1 - j" arbitrary: j m)
  case 0
  then have "length str1 < Suc j" by simp
  then have "fill_row str1 str2 (Suc i) (Suc j) m = Some m"
    by (subst fill_row.simps) simp
  moreover have "filled str1 str2 (Suc (Suc i)) 1 m"
    using filled_row_done[OF 0(2) \<open>length str1 < Suc j\<close>] .
  ultimately show ?case by blast
next
  case (Suc k)
  then have j: "j < length str1" by simp
  from cell_set_filled[OF Suc(3) Suc(4) j] obtain m1 where
    m1: "cell_set m (Suc i) (Suc j) (prefix_distance str1 str2 (Suc i) (Suc j)) = Some m1"
        "filled str1 str2 (Suc i) (Suc (Suc j)) m1" by blast
  have "k = length str1 - Suc j" using Suc(2) by simp
  from Suc(1)[OF this m1(2) Suc(4)] obtain m' where
    m': "fill_row str1 str2 (Suc i) (Suc (Suc j)) m1 = Some m'"
        "filled str1 str2 (Suc (Suc i)) 1 m'" by blast
  have "fill_row str1 str2 (Suc i) (Suc j) m = Some m'"
    using j cell_value_filled[OF Suc(3) Suc(4) j] m1(1) m'(1)
    by (subst fill_row.simps) simp
  with m'(2) show ?case by blast
qed

lemma fill_rows_filled:
  assumes "filled str1 str2 (Suc i) 1 m"
  shows "\<exists>m'. fill_rows str1 str2 (Suc i) m = Some m'
           \<and> (\<exists>i'. length str2 < i' \<and> filled str1 str2 i' 1 m')"
  using assms
proof (induction "length str2 - i" arbitrary: i m)
  case 0
  then have "length str2 < Suc i" by simp
  then have "fill_rows str1 str2 (Suc i) m = Some m"
    by (subst fill_rows.simps) simp
  with 0(2) \<open>length str2 < Suc i\<close> show ?case by blast
next
  case (Suc k)
  then have i: "i < length str2" by simp
  from fill_row_filled[of str1 str2 i 0 m] Suc(3) i obtain m1 where
    m1: "fill_row str1 str2 (Suc i) 1 m = Some m1" "filled str1 str2 (Suc (Suc i)) 1 m1"
    by auto
  have "k = length str2 - Suc i" using Suc(2) by simp
  from Suc(1)[OF this m1(2)] obtain m' i' where
    m': "fill_rows str1 str2 (Suc (Suc i)) m1 = Some m'" "length str2 < i'"
        "filled str1 str2 i' 1 m'" by blast
  have "fill_rows str1 str2 (Suc i) m = Some m'"
    using i m1(1) m'(1) by (subst fill_rows.simps) simp
  with m'(2,3) show ?case by blast
qed

lemma levenshteinDistance_lev:
  "levenshteinDistance str1 str2 = Some (lev (rev str1) (rev str2))"
proof -
  from filled_init[of str1 str2] obtain m0 where
    m0: "init_first_row (length str1) 0 (init_rows (length str2) 0 Map.empty) = Some m0"
        "filled str1 str2 1 1 m0" by blast
  from fill_rows_filled[of str1 str2 0 m0] m0(2) obtain m i' where
    m: "fill_rows str1 str2 1 m0 = Some m" "length str2 < i'" "filled str1 str2 i' 1 m"
    by auto
  have "cell_get m (length str2) (length str1)
          = Some (prefix_distance str1 str2 (length str2) (length str1))"
    using m(2) by (intro filled_get[OF m(3)]) auto
  with m(1) show ?thesis
    by (simp add: levenshteinDistance_def m0(1) prefix_distance_def)
qed

text \<open>
  Claim C4. \<open>levenshteinDistance a b\<close> returns a number \<open>d\<close> such that \<open>d\<close> single-element
  insertions, deletions and substitutions transform \<open>a\<close> into \<open>b\<close> and no smaller number
  of them does; \<open>calculateLevenshteinSimilarity a b\<close> is \<open>1 - d / max (length a) (length b)\<close>,
  and 1 when both are empty.
\<close>

theorem levenshtein_edit_distance:
  "\<exists>d. levenshteinDistance a b = Some d
       \<and> edits d a b \<and> (\<forall>n. edits n a b \<longrightarrow> d \<le> n)
       \<and> calculateLevenshteinSimilarity a b
           = Some (if a = [] \<and> b = [] then 1
                   else 1 - real d / real (max (length a) (length b)))"
proof -
  let ?d = "lev (rev a) (rev b)"
  have "levenshteinDistance a b = Some ?d" by (rule levenshteinDistance_lev)
  moreover have "edits ?d a b" by (rule lev_rev_min(1))
  moreover have "\<forall>n. edits n a b \<longrightarrow> ?d \<le> n" using lev_rev_min(2) by blast
  moreover have "calculateLevenshteinSimilarity a b
           = Some (if a = [] \<and> b = [] then 1
                   else 1 - real ?d / real (max (length a) (length b)))"
    by (simp add: calculateLevenshteinSimilarity_def levenshteinDistance_lev Let_def max_def)
  ultimately show ?thesis by blast
qed

theorem levenshtein_edit_distance_witness:
  "edits 1 [1, 2, 3 :: nat] [1, 5, 3]
   \<and> (\<exists>d. levenshteinDistance [1, 2, 3 :: nat] [1, 5, 3] = Some d \<and> d \<le> 1
          \<and> calculateLevenshteinSimilarity [1, 2, 3 :: nat] [1, 5, 3] = Some (1 - real d / 3))"
proof -
  have "edit_step ([1] @ 2 # [3 :: nat]) ([1] @ 5 # [3])"
    by (rule edit_step.substitution) simp
  then have e: "edits 1 [1, 2, 3 :: nat] [1, 5, 3]"
    using edits.edits_more[OF _ edits.edits_none, of "[1, 2, 3 :: nat]" "[1, 5, 3]"] by simp
  from levenshtein_edit_distance[of "[1, 2, 3 :: nat]" "[1, 5, 3]"] obtain d where
    d: "levenshteinDistance [1, 2, 3 :: nat] [1, 5, 3] = Some d"
       "\<forall>n. edits n [1, 2, 3 :: nat] [1, 5, 3] \<longrightarrow> d \<le> n"
       "calculateLevenshteinSimilarity [1, 2, 3 :: nat] [1, 5, 3]
           = Some (if [1, 2, 3 :: nat] = [] \<and> [1, 5, 3 :: nat] = [] then 1
                   else 1 - real d / real (max (length [1, 2, 3 :: nat]) (length [1, 5, 3 :: nat])))"
    by blast
  from d(2) e have "d \<le> 1" by blast
  with e d(1,3) show ?thesis by simp
qed

section \<open>Properties of the scorer\<close>

lemma word_score_bounds:
  "0 \<le> word_matches.score (compareWordArrays expected actual)"
  "word_matches.score (compareWordArrays expected actual) \<le> 1"
proof -
  have "matchedCount (compareWordArrays expected actual) \<le> length expected"
    using length_filter_le[of "\<lambda>(i, w). w \<in> set actual" "enumerate 0 expected"]
    by (simp add: compareWordArrays_fields)
  then show "0 \<le> word_matches.score (compareWordArrays expected actual)"
    "word_matches.score (compareWordArrays expected actual) \<le> 1"
    by (simp_all add: compareWordArrays_fields(5) divide_le_eq_1)
qed

lemma similarity_bounds:
  "\<exists>c. calculateLevenshteinSimilarity a b = Some c \<and> 0 \<le> c \<and> c \<le> 1"
proof -
  let ?d = "lev (rev a) (rev b)"
  have "?d \<le> max (length a) (length b)"
    using lev_le_max[of "rev a" "rev b"] by simp
  then have "real ?d \<le> real (max (length a) (length b))"
    by (simp only: of_nat_le_iff)
  then have "real ?d / real (max (length a) (length b)) \<le> 1"
  proof (cases "max (length a) (length b) = 0")
    case True
    then show ?thesis by simp
  next
    case False
    then have "0 < real (max (length a) (length b))"
      by (simp only: neq0_conv of_nat_0_less_iff)
    with \<open>real ?d \<le> real (max (length a) (length b))\<close> show ?thesis
      by (simp only: divide_le_eq_1_pos)
  qed
  moreover have "0 \<le> real ?d / real (max (length a) (length b))" by simp
  ultimately show ?thesis
    by (simp add: calculateLevenshteinSimilarity_def levenshteinDistance_lev Let_def)
qed

text \<open>
  Claim C1. When the normalized forms of the two inputs differ, \<open>compareTexts\<close> returns a
  result of type \<open>fuzzy\<close> whose score is 0.7 times the score of \<open>compareWordArrays\<close> on
  the words of the two normalized strings plus 0.3 times the Levenshtein similarity of the
  two normalized strings. This holds for every lower-casing function.
\<close>

theorem compareTexts_fuzzy:
  assumes "normalizeArabicText lc expected \<noteq> normalizeArabicText lc actual"
  shows "\<exists>r sim. compareTexts lc expected actual = Some r
           \<and> comparison.type r = ''fuzzy''
           \<and> calculateLevenshteinSimilarity (normalizeArabicText lc expected)
                (normalizeArabicText lc actual) = Some sim
           \<and> characterSimilarity r = Some sim
           \<and> wordMatches r = Some (compareWordArrays
                (filter (\<lambda>w. w \<noteq> []) (js_split 0x0020 (normalizeArabicText lc expected)))
                (filter (\<lambda>w. w \<noteq> []) (js_split 0x0020 (normalizeArabicText lc actual))))
           \<and> comparison.score r =
                0.7 * word_matches.score (compareWordArrays
                  (filter (\<lambda>w. w \<noteq> []) (js_split 0x0020 (normalizeArabicText lc expected)))
                  (filter (\<lambda>w. w \<noteq> []) (js_split 0x0020 (normalizeArabicText lc actual))))
                + 0.3 * sim"
proof -
  from similarity_bounds[of "normalizeArabicText lc expected" "normalizeArabicText lc actual"]
  obtain sim where "calculateLevenshteinSimilarity (normalizeArabicText lc expected)
                (normalizeArabicText lc actual) = Some sim" by blast
  with assms show ?thesis
    by (simp add: compareTexts_def Let_def)
qed

text \<open>
  Claim C3, as the code has it. When the normalized forms of the two inputs are equal (so
  in particular for \<open>compareTexts s s\<close>), the result is exactly the object with score 1 and
  type \<open>exact\<close>: it carries no alignment, no character similarity and no details.
\<close>

theorem compareTexts_exact:
  assumes "normalizeArabicText lc expected = normalizeArabicText lc actual"
  shows "compareTexts lc expected actual =
           Some \<lparr>score = 1, type = ''exact'', wordMatches = None,
                 characterSimilarity = None, details = None\<rparr>"
  using assms by (simp add: compareTexts_def)

text \<open>
  Claim C5. On both paths \<open>compareTexts\<close> returns a result, and its score lies between 0
  and 1.
\<close>

theorem compareTexts_score_bounds:
  "\<exists>r. compareTexts lc expected actual = Some r
       \<and> 0 \<le> comparison.score r \<and> comparison.score r \<le> 1"
proof (cases "normalizeArabicText lc expected = normalizeArabicText lc actual")
  case True
  then show ?thesis by (simp add: compareTexts_def)
next
  case False
  let ?ne = "normalizeArabicText lc expected" and ?na = "normalizeArabicText lc actual"
  let ?w = "compareWordArrays (filter (\<lambda>w. w \<noteq> []) (js_split 0x0020 ?ne))
              (filter (\<lambda>w. w \<noteq> []) (js_split 0x0020 ?na))"
  from similarity_bounds[of ?ne ?na] obtain c where
    c: "calculateLevenshteinSimilarity ?ne ?na = Some c" "0 \<le> c" "c \<le> 1" by blast
  have w: "0 \<le> word_matches.score ?w" "word_matches.score ?w \<le> 1"
    by (rule word_score_bounds)+
  have "0 \<le> word_matches.score ?w * 0.7 + c * 0.3" using w(1) c(2) by simp
  moreover have "word_matches.score ?w * 0.7 + c * 0.3 \<le> 1" using w(2) c(3) by simp
  ultimately show ?thesis using False c(1)
    by (simp add: compareTexts_def Let_def)
qed

lemma normalize_example_upper: "normalizeArabicText ascii_toLowerCase [0x41, 0x62, 0x20, 0x63, 0x64] = [0x61, 0x62, 0x20, 0x63, 0x64]"
  by code_simp

lemma normalize_example_lower: "normalizeArabicText ascii_toLowerCase [0x61, 0x62] = [0x61, 0x62]"
  by code_simp

lemma similarity_example: "calculateLevenshteinSimilarity [0x61, 0x62, 0x20, 0x63, 0x64 :: code_unit] [0x61, 0x62] = Some (2/5)"
  by code_simp

lemma word_score_example: "word_matches.score (compareWordArrays
                  (filter (\<lambda>w. w \<noteq> []) (js_split 0x0020 [0x61, 0x62, 0x20, 0x63, 0x64 :: code_unit]))
                  (filter (\<lambda>w. w \<noteq> []) (js_split 0x0020 [0x61, 0x62]))) = 1/2"
  by code_simp

theorem compareTexts_fuzzy_witness:
  "normalizeArabicText ascii_toLowerCase [0x41, 0x62, 0x20, 0x63, 0x64]
     \<noteq> normalizeArabicText ascii_toLowerCase [0x61, 0x62]
   \<and> map_option comparison.type
         (compareTexts ascii_toLowerCase [0x41, 0x62, 0x20, 0x63, 0x64] [0x61, 0x62])
       = Some ''fuzzy''
   \<and> map_option comparison.score
         (compareTexts ascii_toLowerCase [0x41, 0x62, 0x20, 0x63, 0x64] [0x61, 0x62])
       = Some (47 / 100)"
proof -
  have h: "normalizeArabicText ascii_toLowerCase [0x41, 0x62, 0x20, 0x63, 0x64]
     \<noteq> normalizeArabicText ascii_toLowerCase [0x61, 0x62]"
    by (simp add: normalize_example_upper normalize_example_lower)
  from compareTexts_fuzzy[OF h] obtain r sim where
    r: "compareTexts ascii_toLowerCase [0x41, 0x62, 0x20, 0x63, 0x64] [0x61, 0x62] = Some r"
       "comparison.type r = ''fuzzy''"
       "calculateLevenshteinSimilarity
          (normalizeArabicText ascii_toLowerCase [0x41, 0x62, 0x20, 0x63, 0x64])
          (normalizeArabicText ascii_toLowerCase [0x61, 0x62]) = Some sim"
       "comparison.score r =
          0.7 * word_matches.score (compareWordArrays
            (filter (\<lambda>w. w \<noteq> []) (js_split 0x0020
               (normalizeArabicText ascii_toLowerCase [0x41, 0x62, 0x20, 0x63, 0x64])))
            (filter (\<lambda>w. w \<noteq> []) (js_split 0x0020
               (normalizeArabicText ascii_toLowerCase [0x61, 0x62]))))
          + 0.3 * sim"
    by blast
  from r(3) have sim: "sim = 2 / 5" unfolding normalize_example_upper normalize_example_lower similarity_example by simp
  from r(4) have "comparison.score r = 0.7 * (1 / 2) + 0.3 * (2 / 5)"
    unfolding normalize_example_upper normalize_example_lower word_score_example sim .
  then have "comparison.score r = 47 / 100" by simp
  with h r(1,2) show ?thesis by simp
qed

theorem compareTexts_exact_witness:
  "normalizeArabicText ascii_toLowerCase [0x0623, 0x064E]
     = normalizeArabicText ascii_toLowerCase [0x0627]
   \<and> compareTexts ascii_toLowerCase [0x0623, 0x064E] [0x0627] =
           Some \<lparr>score = 1, type = ''exact'', wordMatches = None,
                 characterSimilarity = None, details = None\<rparr>"
proof -
  have h: "normalizeArabicText ascii_toLowerCase [0x0623, 0x064E]
     = normalizeArabicText ascii_toLowerCase [0x0627]"
    by code_simp
  from compareTexts_exact[OF h] h show ?thesis by simp
qed

text \<open>
  The exact path does not return a character similarity of 1 or an alignment: for the
  inputs alef with hamza above followed by fatha, and bare alef, whose normalized forms
  agree, both properties are absent from the result.
\<close>

theorem compareTexts_exact_counterexample:
  "normalizeArabicText ascii_toLowerCase [0x0623, 0x064E]
     = normalizeArabicText ascii_toLowerCase [0x0627]
   \<and> map_option characterSimilarity (compareTexts ascii_toLowerCase [0x0623, 0x064E] [0x0627])
       \<noteq> Some (Some 1)
   \<and> map_option wordMatches (compareTexts ascii_toLowerCase [0x0623, 0x064E] [0x0627])
       = Some None"
  by code_simp

theorem compareTexts_score_bounds_witness:
  "map_option comparison.score
     (compareTexts ascii_toLowerCase [0x41, 0x62, 0x20, 0x63, 0x64] [0x61, 0x62]) = Some (47 / 100)
   \<and> (0::real) \<le> 47 / 100 \<and> (47 / 100 :: real) \<le> 1"
proof -
  have "map_option comparison.score
     (compareTexts ascii_toLowerCase [0x41, 0x62, 0x20, 0x63, 0x64] [0x61, 0x62]) = Some (47 / 100)"
    by code_simp
  with compareTexts_score_bounds[of ascii_toLowerCase "[0x41, 0x62, 0x20, 0x63, 0x64]" "[0x61, 0x62]"]
  show ?thesis by auto
qed

subsection \<open>Two scenarios of the specification, evaluated\<close>

text \<open>
  The truncated verse (five expected words, of which the first two are read): the word
  score is 2/5, the missing words are those at the indices 2, 3 and 4, and nothing is
  extra. A word read twice and expected once: one match, at its first occurrence, and no
  extra word.
\<close>

lemma scenario_truncated_verse:
  "map_option (\<lambda>r. (comparison.type r,
                     map_option word_matches.score (wordMatches r),
                     map_option (map index \<circ> missing) (wordMatches r),
                     map_option extra (wordMatches r)))
     (compareTexts ascii_toLowerCase
        [0x0627, 0x0644, 0x0631, 0x0628, 0x0020, 0x0631, 0x0627, 0x0639, 0x064A, 0x0020, 0x0641, 0x0644, 0x0627, 0x0020, 0x064A, 0x0639, 0x0648, 0x0632, 0x0646, 0x064A, 0x0020, 0x0634, 0x064A, 0x0621]
        [0x0627, 0x0644, 0x0631, 0x0628, 0x0020, 0x0631, 0x0627, 0x0639, 0x064A])
   = Some (''fuzzy'', Some (2 / 5), Some [2, 3, 4], Some [])"
  by code_simp

lemma scenario_repeated_word:
  "matches (compareWordArrays [[0x0627 :: code_unit]] [[0x0627], [0x0627]])
     = [\<lparr>matched.word = [0x0627], expectedIndex = 0, actualIndex = 0\<rparr>]"
  "extra (compareWordArrays [[0x0627 :: code_unit]] [[0x0627], [0x0627]]) = []"
  "word_matches.score (compareWordArrays [[0x0627 :: code_unit]] [[0x0627], [0x0627]]) = 1"
  by code_simp+

section \<open>Properties of the normalizer\<close>

subsection \<open>Code units as numbers\<close>

lemma is_space_unat:
  "is_space c \<longleftrightarrow>
     (9 \<le> unat c \<and> unat c \<le> 13) \<or> unat c = 32 \<or> unat c = 160 \<or> unat c = 5760
     \<or> (8192 \<le> unat c \<and> unat c \<le> 8202) \<or> unat c = 8232 \<or> unat c = 8233 \<or> unat c = 8239
     \<or> unat c = 8287 \<or> unat c = 12288 \<or> unat c = 65279"
  unfolding is_space_def by (simp add: word_le_nat_alt word_unat_eq_iff)

lemma is_caseless_unat:
  "is_caseless c \<longleftrightarrow> (1536 \<le> unat c \<and> unat c \<le> 1791) \<or> is_space c"
  unfolding is_caseless_def by (simp add: word_le_nat_alt)

lemma upper_unat: "(0x0041 \<le> c \<and> c \<le> 0x005A) \<longleftrightarrow> (65 \<le> unat c \<and> unat c \<le> 90)" for c :: code_unit
  by (simp add: word_le_nat_alt)

lemma unat_ascii_lower:
  "unat (ascii_lower c) = (if 65 \<le> unat c \<and> unat c \<le> 90 then unat c + 32 else unat c)"
proof (cases "65 \<le> unat c \<and> unat c \<le> 90")
  case True
  then have "unat c + unat (0x20 :: code_unit) < 2 ^ LENGTH(16)" by simp
  then have "unat (c + 0x20) = unat c + unat (0x20 :: code_unit)"
    by (simp only: unat_add_lem)
  with True show ?thesis by (simp add: ascii_lower_def upper_unat)
next
  case False
  then show ?thesis by (auto simp: ascii_lower_def upper_unat)
qed

lemma ascii_lower_idem: "ascii_lower (ascii_lower c) = ascii_lower c"
  by (simp add: word_unat_eq_iff unat_ascii_lower)

lemma tashkeel_caseless: "is_tashkeel c \<Longrightarrow> is_caseless c"
  unfolding is_tashkeel_def is_caseless_unat by (auto simp: word_le_nat_alt)

lemma variants_caseless:
  "is_alef_variant c \<Longrightarrow> is_caseless c"
  "is_teh_marbuta c \<Longrightarrow> is_caseless c"
  "is_yeh_variant c \<Longrightarrow> is_caseless c"
  unfolding is_alef_variant_def is_teh_marbuta_def is_yeh_variant_def is_caseless_def by auto

lemma ascii_lower_caseless: "is_caseless c \<Longrightarrow> ascii_lower c = c"
  unfolding is_caseless_unat is_space_unat by (auto simp: word_unat_eq_iff unat_ascii_lower)

lemma ascii_lower_not_caseless: "\<not> is_caseless c \<Longrightarrow> \<not> is_caseless (ascii_lower c)"
  unfolding is_caseless_unat is_space_unat unat_ascii_lower by (cases "65 \<le> unat c \<and> unat c \<le> 90") simp_all

subsection \<open>The shape of the string before lower-casing\<close>

lemma lower_casing_ascii: "lower_casing ascii_toLowerCase"
  unfolding lower_casing_def
proof (intro conjI allI)
  fix s
  show "ascii_toLowerCase (ascii_toLowerCase s) = ascii_toLowerCase s"
    by (simp add: ascii_toLowerCase_def ascii_lower_idem)
  have "case_image c [ascii_lower c]" for c
    by (cases "is_caseless c")
       (simp_all add: case_image_def ascii_lower_caseless ascii_lower_not_caseless)
  then have "list_all2 case_image s (map (\<lambda>c. [ascii_lower c]) s)"
    by (simp add: list_all2_map2 list_all2_same)
  moreover have "ascii_toLowerCase s = concat (map (\<lambda>c. [ascii_lower c]) s)"
    by (induction s) (simp_all add: ascii_toLowerCase_def)
  ultimately show "\<exists>ws. list_all2 case_image s ws \<and> ascii_toLowerCase s = concat ws"
    by blast
qed

lemma normalizeArabicText_alt:
  "normalizeArabicText lc s = (if s = [] then [] else lc (before_lower_casing s))"
  by (simp add: normalizeArabicText_def before_lower_casing_def)

lemma space_not_variant:
  "\<not> is_tashkeel 0x0020" "\<not> is_alef_variant 0x0020" "\<not> is_teh_marbuta 0x0020"
  "\<not> is_yeh_variant 0x0020" "is_space 0x0020"
  by (simp_all add: is_tashkeel_def is_alef_variant_def is_teh_marbuta_def is_yeh_variant_def
        is_space_def)

lemma unified_letter:
  assumes "\<not> is_tashkeel c"
  shows "\<not> is_tashkeel (normalize_yeh (normalize_teh (normalize_alef c)))"
    "\<not> is_alef_variant (normalize_yeh (normalize_teh (normalize_alef c)))"
    "\<not> is_teh_marbuta (normalize_yeh (normalize_teh (normalize_alef c)))"
    "\<not> is_yeh_variant (normalize_yeh (normalize_teh (normalize_alef c)))"
  using assms
  by (auto simp: normalize_yeh_def normalize_teh_def normalize_alef_def is_tashkeel_def
        is_alef_variant_def is_teh_marbuta_def is_yeh_variant_def)

lemma no_variants_letters:
  "no_variants (map normalize_yeh (map normalize_teh (map normalize_alef
          (filter (\<lambda>c. \<not> is_tashkeel c) s))))"
  unfolding no_variants_def using unified_letter by auto

lemma set_collapse_spaces: "set (collapse_spaces s) \<subseteq> insert 0x0020 (set s)"
proof (induction s rule: collapse_spaces.induct)
  case 1
  show ?case by simp
next
  case (2 c cs)
  show ?case
  proof (cases "is_space c")
    case True
    have "set (dropWhile is_space cs) \<subseteq> set cs" by (auto dest: set_dropWhileD)
    with 2(1)[OF True] True show ?thesis by auto
  next
    case False
    with 2(2)[OF False] show ?thesis by auto
  qed
qed

lemma set_trim: "set (trim s) \<subseteq> set s"
  unfolding trim_def by (auto dest!: set_dropWhileD)

lemma no_variants_before_lower_casing: "no_variants (before_lower_casing s)"
proof -
  let ?l = "map normalize_yeh (map normalize_teh (map normalize_alef
          (filter (\<lambda>c. \<not> is_tashkeel c) s)))"
  have "set (before_lower_casing s) \<subseteq> insert 0x0020 (set ?l)"
    unfolding before_lower_casing_def using set_trim set_collapse_spaces by blast
  with no_variants_letters[of s] show ?thesis
    unfolding no_variants_def using space_not_variant by blast
qed

lemma collapse_spaces_head:
  "s = [] \<or> \<not> is_space (hd s) \<Longrightarrow> collapse_spaces s = [] \<or> \<not> is_space (hd (collapse_spaces s))"
  by (cases s) auto

lemma single_spaces_Cons:
  "single_spaces (c # r) \<longleftrightarrow>
     (is_space c \<longrightarrow> c = 0x0020 \<and> (r = [] \<or> \<not> is_space (hd r))) \<and> single_spaces r"
  by (cases r) auto

lemma single_spaces_collapse: "single_spaces (collapse_spaces s)"
proof (induction s rule: collapse_spaces.induct)
  case 1
  show ?case by simp
next
  case (2 c cs)
  show ?case
  proof (cases "is_space c")
    case True
    have "dropWhile is_space cs = [] \<or> \<not> is_space (hd (dropWhile is_space cs))"
      using hd_dropWhile[of is_space cs] by blast
    from collapse_spaces_head[OF this] 2(1)[OF True] True show ?thesis
      by (simp add: single_spaces_Cons)
  next
    case False
    with 2(2)[OF False] show ?thesis by (simp add: single_spaces_Cons)
  qed
qed

lemma single_spaces_suffix: "single_spaces (a @ y) \<Longrightarrow> single_spaces y"
  by (induction a) (auto simp: single_spaces_Cons)

lemma single_spaces_prefix: "single_spaces (y @ b) \<Longrightarrow> single_spaces y"
proof (induction y)
  case Nil
  show ?case by simp
next
  case (Cons c y)
  then show ?case by (cases y) (auto simp: single_spaces_Cons)
qed

lemma trim_part: "\<exists>a b. s = a @ trim s @ b"
proof -
  let ?y = "dropWhile is_space s"
  have 1: "s = takeWhile is_space s @ ?y" by simp
  have "trim s @ rev (takeWhile is_space (rev ?y))
          = rev (takeWhile is_space (rev ?y) @ dropWhile is_space (rev ?y))"
    by (simp only: trim_def rev_append)
  also have "\<dots> = rev (rev ?y)" by (simp only: takeWhile_dropWhile_id)
  also have "\<dots> = ?y" by simp
  finally have 2: "?y = trim s @ rev (takeWhile is_space (rev ?y))" by simp
  from 1 2 have "s = takeWhile is_space s @ trim s @ rev (takeWhile is_space (rev ?y))"
    by metis
  then show ?thesis by blast
qed

lemma last_dropWhile: "dropWhile P z \<noteq> [] \<Longrightarrow> last (dropWhile P z) = last z"
  by (metis last_appendR takeWhile_dropWhile_id)

lemma trim_ends:
  assumes "trim s \<noteq> []"
  shows "\<not> is_space (hd (trim s))" "\<not> is_space (last (trim s))"
proof -
  let ?y = "dropWhile is_space s"
  let ?z = "dropWhile is_space (rev ?y)"
  from assms have z: "?z \<noteq> []" by (simp add: trim_def)
  have y: "?y \<noteq> []"
  proof
    assume a: "?y = []"
    have "?z = []" unfolding a by simp
    with z show False by blast
  qed
  have "last (trim s) = hd ?z" using z by (simp add: trim_def last_rev)
  moreover have "\<not> is_space (hd ?z)" using z hd_dropWhile by blast
  ultimately show "\<not> is_space (last (trim s))" by simp
  have "hd (trim s) = last ?z" using z by (simp add: trim_def hd_rev)
  also have "\<dots> = last (rev ?y)" using z by (rule last_dropWhile)
  also have "\<dots> = hd ?y" using y by (simp add: last_rev)
  finally have "hd (trim s) = hd ?y" .
  moreover have "\<not> is_space (hd ?y)" using y hd_dropWhile by blast
  ultimately show "\<not> is_space (hd (trim s))" by simp
qed

lemma spaced_intro:
  "single_spaces t \<Longrightarrow> t \<noteq> [] \<Longrightarrow> (prev \<longrightarrow> \<not> is_space (hd t)) \<Longrightarrow> \<not> is_space (last t)
     \<Longrightarrow> spaced prev t"
proof (induction t arbitrary: prev)
  case Nil
  then show ?case by simp
next
  case (Cons c cs)
  show ?case
  proof (cases "cs = []")
    case True
    with Cons.prems show ?thesis by simp
  next
    case False
    from Cons.prems(1) have ss: "single_spaces cs"
      and sp: "is_space c \<longrightarrow> c = 0x0020 \<and> \<not> is_space (hd cs)"
      using False by (auto simp: single_spaces_Cons)
    from Cons.prems(4) False have l: "\<not> is_space (last cs)" by simp
    show ?thesis
    proof (cases "is_space c")
      case True
      with sp have "spaced True cs" using Cons.IH[OF ss False _ l, of True] by simp
      with True sp Cons.prems(3) show ?thesis by simp
    next
      case c: False
      have "spaced False cs" using Cons.IH[OF ss False _ l, of False] by simp
      with c show ?thesis by simp
    qed
  qed
qed

lemma spaced_before_lower_casing:
  "before_lower_casing s = [] \<or> spaced True (before_lower_casing s)"
proof (cases "before_lower_casing s = []")
  case True
  then show ?thesis by simp
next
  case False
  let ?u = "collapse_spaces (map normalize_yeh (map normalize_teh (map normalize_alef
          (filter (\<lambda>c. \<not> is_tashkeel c) s))))"
  have t: "before_lower_casing s = trim ?u" by (simp add: before_lower_casing_def)
  from trim_part[of ?u] obtain a b where ab: "?u = a @ trim ?u @ b" by blast
  have "single_spaces ?u" by (rule single_spaces_collapse)
  with ab have "single_spaces (a @ trim ?u @ b)" by simp
  then have "single_spaces (trim ?u)"
    using single_spaces_suffix single_spaces_prefix by blast
  moreover have "trim ?u \<noteq> []" using False t by simp
  ultimately have "spaced True (trim ?u)"
    using trim_ends[of ?u] by (intro spaced_intro) auto
  with t show ?thesis by simp
qed

subsection \<open>Lower-casing keeps the shape\<close>

lemma spaced_append_letters:
  "w \<noteq> [] \<Longrightarrow> \<forall>d \<in> set w. \<not> is_space d \<Longrightarrow> spaced prev (w @ r) = spaced False r"
proof (induction w arbitrary: prev)
  case Nil
  then show ?case by simp
next
  case (Cons d w)
  then show ?case by (cases "w = []") auto
qed

lemma spaced_case_image:
  "list_all2 case_image s ws \<Longrightarrow> spaced prev s \<Longrightarrow> spaced prev (concat ws)"
proof (induction arbitrary: prev rule: list_all2_induct)
  case Nil
  then show ?case by simp
next
  case (Cons c s w ws)
  show ?case
  proof (cases "is_caseless c")
    case True
    with Cons.hyps(1) have "w = [c]" by (simp add: case_image_def)
    with Cons.prems Cons.IH show ?thesis by (auto split: if_splits)
  next
    case False
    with Cons.hyps(1) have w: "w \<noteq> []" "\<forall>d \<in> set w. \<not> is_caseless d"
      by (simp_all add: case_image_def)
    from w(2) have ns: "\<forall>d \<in> set w. \<not> is_space d" by (auto simp: is_caseless_def)
    from False have "\<not> is_space c" by (simp add: is_caseless_def)
    with Cons.prems have "spaced False s" by simp
    then have "spaced False (concat ws)" by (rule Cons.IH)
    then show ?thesis using spaced_append_letters[OF w(1) ns] by simp
  qed
qed

lemma no_variants_case_image:
  "list_all2 case_image s ws \<Longrightarrow> no_variants s \<Longrightarrow> no_variants (concat ws)"
proof (induction rule: list_all2_induct)
  case Nil
  then show ?case by simp
next
  case (Cons c s w ws)
  from Cons.prems have c: "no_variants [c]" and s: "no_variants s"
    by (simp_all add: no_variants_def)
  have "no_variants w"
  proof (cases "is_caseless c")
    case True
    with Cons.hyps(1) c show ?thesis by (simp add: case_image_def)
  next
    case False
    with Cons.hyps(1) have "\<forall>d \<in> set w. \<not> is_caseless d" by (simp add: case_image_def)
    then show ?thesis
      unfolding no_variants_def using tashkeel_caseless variants_caseless by blast
  qed
  with Cons.IH[OF s] show ?case by (auto simp: no_variants_def)
qed

lemma spaced_nonempty: "spaced True s \<Longrightarrow> s \<noteq> []"
  by auto

lemma spaced_hd: "spaced True s \<Longrightarrow> \<not> is_space (hd s)"
  by (cases s) (auto split: if_splits)

lemma spaced_last: "spaced prev s \<Longrightarrow> s \<noteq> [] \<Longrightarrow> \<not> is_space (last s)"
proof (induction s arbitrary: prev)
  case Nil
  then show ?case by simp
next
  case (Cons c cs)
  then show ?case by (cases "cs = []") (auto split: if_splits)
qed

lemma spaced_no_run:
  "spaced prev s \<Longrightarrow> s = u @ c # d # v \<Longrightarrow> \<not> (is_space c \<and> is_space d)"
proof (induction u arbitrary: prev s)
  case Nil
  then show ?case by (auto split: if_splits)
next
  case (Cons e u)
  from Cons.prems obtain p where "spaced p (u @ c # d # v)" by (auto split: if_splits)
  from Cons.IH[OF this] show ?case by simp
qed

lemma spaced_only_U0020: "spaced prev s \<Longrightarrow> c \<in> set s \<Longrightarrow> is_space c \<Longrightarrow> c = 0x0020"
  by (induction s arbitrary: prev) (auto split: if_splits)

lemma collapse_spaces_spaced: "spaced prev s \<Longrightarrow> collapse_spaces s = s"
proof (induction s arbitrary: prev)
  case Nil
  then show ?case by simp
next
  case (Cons c cs)
  show ?case
  proof (cases "is_space c")
    case True
    with Cons.prems have c: "c = 0x0020" and cs: "spaced True cs" by simp_all
    from cs have "dropWhile is_space cs = cs"
      using spaced_hd[OF cs] spaced_nonempty[OF cs] by (cases cs) auto
    with True c Cons.IH[OF cs] show ?thesis by simp
  next
    case False
    with Cons.prems have "spaced False cs" by simp
    from Cons.IH[OF this] False show ?thesis by simp
  qed
qed

lemma trim_spaced: "spaced True s \<Longrightarrow> trim s = s"
proof -
  assume s: "spaced True s"
  from spaced_nonempty[OF s] spaced_hd[OF s] have 1: "dropWhile is_space s = s"
    by (cases s) auto
  from spaced_nonempty[OF s] spaced_last[OF s] have "\<not> is_space (hd (rev s))"
    by (simp add: hd_rev)
  with spaced_nonempty[OF s] have 2: "dropWhile is_space (rev s) = rev s"
    by (cases "rev s") auto
  show ?thesis by (simp add: trim_def 1 2)
qed

lemma letters_no_variants:
  assumes "no_variants s"
  shows "map normalize_yeh (map normalize_teh (map normalize_alef
          (filter (\<lambda>c. \<not> is_tashkeel c) s))) = s"
proof -
  have 1: "filter (\<lambda>c. \<not> is_tashkeel c) s = s"
    using assms by (simp add: no_variants_def filter_id_conv)
  have 2: "map normalize_alef s = s" "map normalize_teh s = s" "map normalize_yeh s = s"
    using assms
    by (simp_all add: no_variants_def map_idI normalize_alef_def normalize_teh_def
          normalize_yeh_def)
  show ?thesis by (simp add: 1 2)
qed

lemma before_lower_casing_fixed:
  assumes "no_variants s" "spaced True s"
  shows "before_lower_casing s = s"
  unfolding before_lower_casing_def letters_no_variants[OF assms(1)]
    collapse_spaces_spaced[OF assms(2)] trim_spaced[OF assms(2)] ..

lemma lower_casing_Nil: "lower_casing lc \<Longrightarrow> lc [] = []"
proof -
  assume "lower_casing lc"
  then obtain ws where "list_all2 case_image [] ws" "lc [] = concat ws"
    unfolding lower_casing_def by blast
  then show ?thesis by simp
qed

lemma normalized_shape:
  assumes lc: "lower_casing lc"
  shows "no_variants (normalizeArabicText lc s)"
    "normalizeArabicText lc s = [] \<or> spaced True (normalizeArabicText lc s)"
proof -
  let ?t = "before_lower_casing s"
  from lc obtain ws where ws: "list_all2 case_image ?t ws" "lc ?t = concat ws"
    unfolding lower_casing_def by blast
  have "no_variants (lc ?t)"
    using no_variants_case_image[OF ws(1) no_variants_before_lower_casing] ws(2) by simp
  then show "no_variants (normalizeArabicText lc s)"
    by (simp add: normalizeArabicText_alt no_variants_def)
  show "normalizeArabicText lc s = [] \<or> spaced True (normalizeArabicText lc s)"
  proof (cases "?t = []")
    case True
    then show ?thesis by (simp add: normalizeArabicText_alt lower_casing_Nil[OF lc])
  next
    case False
    with spaced_before_lower_casing[of s] have "spaced True ?t" by simp
    from spaced_case_image[OF ws(1) this] ws(2) show ?thesis
      by (simp add: normalizeArabicText_alt)
  qed
qed

subsection \<open>The invariant and idempotence\<close>

lemma lower_casing_caseless_single:
  assumes "lower_casing lc" "is_caseless c"
  shows "lc [c] = [c]"
proof -
  from assms(1) obtain ws where ws: "list_all2 case_image [c] ws" "lc [c] = concat ws"
    unfolding lower_casing_def by blast
  from ws(1) obtain w where "ws = [w]" "case_image c w"
    by (auto simp: list_all2_Cons1)
  with assms(2) ws(2) show ?thesis by (simp add: case_image_def)
qed

lemma unified_single:
  "is_alef_variant c \<Longrightarrow> before_lower_casing [c] = [0x0627]"
  "is_teh_marbuta c \<Longrightarrow> before_lower_casing [c] = [0x0647]"
  "is_yeh_variant c \<Longrightarrow> before_lower_casing [c] = [0x064A]"
  by (auto simp: before_lower_casing_def trim_def is_alef_variant_def is_teh_marbuta_def
        is_yeh_variant_def is_tashkeel_def normalize_alef_def normalize_teh_def
        normalize_yeh_def is_space_def)

lemma arabic_letters_caseless:
  "is_caseless 0x0627" "is_caseless 0x0647" "is_caseless 0x064A"
  by (simp_all add: is_caseless_def)

text \<open>
  Claim C6. For a lower-casing function as described by \<open>lower_casing\<close>, the output of
  \<open>normalizeArabicText\<close> contains no code unit of the tashkeel class, no alef variant, no
  teh marbuta and no alef maksura or yeh with hamza (these collapse to alef, heh and yeh);
  no two white-space code units are adjacent in it, it neither starts nor ends with white
  space, and lower-casing leaves it unchanged; the empty string is mapped to the empty
  string. The function is total: it returns a string for every string.
\<close>

theorem normalizeArabicText_invariant:
  assumes "lower_casing lc"
  shows "(\<forall>c \<in> set (normalizeArabicText lc s).
            \<not> is_tashkeel c \<and> \<not> is_alef_variant c \<and> \<not> is_teh_marbuta c \<and> \<not> is_yeh_variant c)
       \<and> (\<forall>u c d v. normalizeArabicText lc s = u @ c # d # v \<longrightarrow> \<not> (is_space c \<and> is_space d))
       \<and> (normalizeArabicText lc s \<noteq> [] \<longrightarrow>
            \<not> is_space (hd (normalizeArabicText lc s))
            \<and> \<not> is_space (last (normalizeArabicText lc s)))
       \<and> lc (normalizeArabicText lc s) = normalizeArabicText lc s
       \<and> normalizeArabicText lc [] = []
       \<and> (\<forall>c. is_alef_variant c \<longrightarrow> normalizeArabicText lc [c] = [0x0627])
       \<and> (\<forall>c. is_teh_marbuta c \<longrightarrow> normalizeArabicText lc [c] = [0x0647])
       \<and> (\<forall>c. is_yeh_variant c \<longrightarrow> normalizeArabicText lc [c] = [0x064A])"
proof -
  let ?n = "normalizeArabicText lc s"
  note shape = normalized_shape[OF assms, of s]
  have 1: "\<forall>c \<in> set ?n.
            \<not> is_tashkeel c \<and> \<not> is_alef_variant c \<and> \<not> is_teh_marbuta c \<and> \<not> is_yeh_variant c"
    using shape(1) by (simp add: no_variants_def)
  have 2: "\<forall>u c d v. ?n = u @ c # d # v \<longrightarrow> \<not> (is_space c \<and> is_space d)"
  proof (intro allI impI)
    fix u c d v assume eq: "?n = u @ c # d # v"
    then have "?n \<noteq> []" by simp
    with shape(2) have "spaced True ?n" by simp
    from spaced_no_run[OF this eq] show "\<not> (is_space c \<and> is_space d)" .
  qed
  have 3: "?n \<noteq> [] \<longrightarrow> \<not> is_space (hd ?n) \<and> \<not> is_space (last ?n)"
    using shape(2) spaced_hd spaced_last by blast
  have 4: "lc ?n = ?n"
    using assms by (simp add: normalizeArabicText_alt lower_casing_Nil lower_casing_def)
  have 5: "normalizeArabicText lc [] = []" by (simp add: normalizeArabicText_def)
  have 6: "\<forall>c. is_alef_variant c \<longrightarrow> normalizeArabicText lc [c] = [0x0627]"
    by (simp add: normalizeArabicText_alt unified_single
          lower_casing_caseless_single[OF assms] arabic_letters_caseless)
  have 7: "\<forall>c. is_teh_marbuta c \<longrightarrow> normalizeArabicText lc [c] = [0x0647]"
    by (simp add: normalizeArabicText_alt unified_single
          lower_casing_caseless_single[OF assms] arabic_letters_caseless)
  have 8: "\<forall>c. is_yeh_variant c \<longrightarrow> normalizeArabicText lc [c] = [0x064A]"
    by (simp add: normalizeArabicText_alt unified_single
          lower_casing_caseless_single[OF assms] arabic_letters_caseless)
  from 1 2 3 4 5 6 7 8 show ?thesis by blast
qed

lemma normalize_example_mixed:
  "normalizeArabicText ascii_toLowerCase
     [0x0020, 0x0041, 0x0623, 0x064E, 0x0009, 0x00A0, 0x0649, 0x0020]
   = [0x0061, 0x0627, 0x0020, 0x064A]"
  by code_simp

theorem normalizeArabicText_invariant_witness:
  "lower_casing ascii_toLowerCase
   \<and> normalizeArabicText ascii_toLowerCase
        [0x0020, 0x0041, 0x0623, 0x064E, 0x0009, 0x00A0, 0x0649, 0x0020]
      = [0x0061, 0x0627, 0x0020, 0x064A]
   \<and> list_all (\<lambda>c. \<not> is_tashkeel c \<and> \<not> is_alef_variant c
                       \<and> \<not> is_teh_marbuta c \<and> \<not> is_yeh_variant c)
        [0x0061, 0x0627, 0x0020, 0x064A]
   \<and> ascii_toLowerCase [0x0061, 0x0627, 0x0020, 0x064A] = [0x0061, 0x0627, 0x0020, 0x064A]
   \<and> is_alef_variant 0x0623
   \<and> normalizeArabicText ascii_toLowerCase [0x0623] = [0x0627]"
proof -
  have v: "is_alef_variant 0x0623" by (simp add: is_alef_variant_def)
  from normalizeArabicText_invariant[OF lower_casing_ascii,
      of "[0x0020, 0x0041, 0x0623, 0x064E, 0x0009, 0x00A0, 0x0649, 0x0020]"]
  show ?thesis
    unfolding normalize_example_mixed list_all_iff using lower_casing_ascii v by blast
qed

text \<open>
  Claim C7. For a lower-casing function as described by \<open>lower_casing\<close>, normalizing a
  normalized string returns it unchanged.
\<close>

theorem normalizeArabicText_idempotent:
  assumes "lower_casing lc"
  shows "normalizeArabicText lc (normalizeArabicText lc s) = normalizeArabicText lc s"
proof (cases "normalizeArabicText lc s = []")
  case True
  then show ?thesis by (simp add: normalizeArabicText_def)
next
  case False
  let ?n = "normalizeArabicText lc s"
  from normalized_shape[OF assms, of s] False
  have "no_variants ?n" "spaced True ?n" by simp_all
  then have "before_lower_casing ?n = ?n" by (rule before_lower_casing_fixed)
  moreover have "lc ?n = ?n"
    using assms by (simp add: normalizeArabicText_alt lower_casing_Nil lower_casing_def)
  ultimately show ?thesis using False by (simp add: normalizeArabicText_alt[of lc ?n])
qed

theorem normalizeArabicText_idempotent_witness:
  "lower_casing ascii_toLowerCase
   \<and> normalizeArabicText ascii_toLowerCase
        [0x0020, 0x0041, 0x0623, 0x064E, 0x0009, 0x00A0, 0x0649, 0x0020]
      = [0x0061, 0x0627, 0x0020, 0x064A]
   \<and> normalizeArabicText ascii_toLowerCase [0x0061, 0x0627, 0x0020, 0x064A]
      = [0x0061, 0x0627, 0x0020, 0x064A]"
  using normalizeArabicText_idempotent[OF lower_casing_ascii,
      of "[0x0020, 0x0041, 0x0623, 0x064E, 0x0009, 0x00A0, 0x0649, 0x0020]"]
    lower_casing_ascii
  unfolding normalize_example_mixed by simp

section \<open>Properties of the session controller\<close>

lemma clearSilenceTimer_fields [simp]:
  "trace (clearSilenceTimer s) = trace s"
  "hasReceivedSpeech (clearSilenceTimer s) = hasReceivedSpeech s"
  "isListening (clearSilenceTimer s) = isListening s"
  "hasMediaStream (clearSilenceTimer s) = hasMediaStream s"
  "options (clearSilenceTimer s) = options s"
  by (simp_all add: clearSilenceTimer_def clearTimeout_def split: option.splits)

lemma clearTimers_fields [simp]:
  "trace (clearTimers s) = trace s"
  "hasReceivedSpeech (clearTimers s) = hasReceivedSpeech s"
  "isListening (clearTimers s) = isListening s"
  "hasMediaStream (clearTimers s) = hasMediaStream s"
  by (simp_all add: clearTimers_def clearTimeout_def Let_def split: option.splits)

lemma clearTimeout_fields [simp]:
  "trace (clearTimeout tid s) = trace s"
  "hasReceivedSpeech (clearTimeout tid s) = hasReceivedSpeech s"
  "isListening (clearTimeout tid s) = isListening s"
  "hasMediaStream (clearTimeout tid s) = hasMediaStream s"
  by (simp_all add: clearTimeout_def)

lemma stop_fields:
  "trace (stop s) = trace s @ (if isListening s then [RecognitionStop] else [])
                      @ (if hasMediaStream s then [StopTracks] else [])"
  "hasReceivedSpeech (stop s) = hasReceivedSpeech s"
  "isListening (stop s) = isListening s"
  by (simp_all add: stop_def cleanupAudioEnhancement_def call_def)

lemma abort_fields:
  "trace (abort s) = trace s @ (if isListening s then [RecognitionAbort] else [])
                      @ (if hasMediaStream s then [StopTracks] else [])"
  "hasReceivedSpeech (abort s) = hasReceivedSpeech s"
  by (simp_all add: abort_def cleanupAudioEnhancement_def call_def)

lemma startSilenceTimer_fields [simp]:
  "trace (startSilenceTimer s) = trace s"
  "hasReceivedSpeech (startSilenceTimer s) = hasReceivedSpeech s"
  by (simp_all add: startSilenceTimer_def setTimeout_def)

lemma start_fields:
  "hasReceivedSpeech (snd (start env s)) = hasReceivedSpeech s"
  "\<exists>new. trace (snd (start env s)) = trace s @ new \<and> Emit ''timeout'' ''silence'' \<notin> set new"
  by (auto simp: start_def setupAudioEnhancement_def emit_def call_def Let_def
        split: option.splits)

lemma run_callback_no_speech:
  assumes "\<not> hasReceivedSpeech s"
  shows "\<not> hasReceivedSpeech (run_callback cb s)"
    "\<exists>new. trace (run_callback cb s) = trace s @ new \<and> Emit ''timeout'' ''silence'' \<notin> set new"
  using assms by (cases cb; simp add: emit_def stop_fields)+

lemma step_no_speech:
  assumes "\<not> hasReceivedSpeech s" "\<not> is_speech_start e"
  shows "\<not> hasReceivedSpeech (step e s)"
    "\<exists>new. trace (step e s) = trace s @ new \<and> Emit ''timeout'' ''silence'' \<notin> set new"
proof -
  have "\<not> hasReceivedSpeech (step e s)
      \<and> (\<exists>new. trace (step e s) = trace s @ new \<and> Emit ''timeout'' ''silence'' \<notin> set new)"
  proof (cases e)
    case (CallStart env)
    with assms(1) start_fields[of env s] show ?thesis by simp
  next
    case CallStop
    with assms(1) show ?thesis by (simp add: stop_fields)
  next
    case CallAbort
    with assms(1) show ?thesis by (simp add: abort_fields)
  next
    case (OnStart now)
    then show ?thesis by (simp add: onstart_def setTimeout_def emit_def)
  next
    case OnEnd
    with assms(1) show ?thesis by (simp add: onend_def emit_def)
  next
    case OnNoMatch
    with assms(1) show ?thesis by (simp add: onnomatch_def emit_def)
  next
    case (OnSpeechStart now)
    with assms(2) show ?thesis by simp
  next
    case (OnSpeechEnd now)
    with assms(1) show ?thesis by (simp add: onspeechend_def emit_def)
  next
    case (TimerFires tid)
    show ?thesis
    proof (cases "map_of (timers s) tid")
      case None
      with TimerFires assms(1) show ?thesis by (simp add: timer_fires_def)
    next
      case (Some dc)
      obtain delay cb where dc: "dc = (delay, cb)" by (cases dc)
      have q: "\<not> hasReceivedSpeech (clearTimeout tid s)" using assms(1) by simp
      from run_callback_no_speech[OF q, of cb] TimerFires Some dc
      show ?thesis by (simp add: timer_fires_def)
    qed
  qed
  then show "\<not> hasReceivedSpeech (step e s)"
    "\<exists>new. trace (step e s) = trace s @ new \<and> Emit ''timeout'' ''silence'' \<notin> set new"
    by blast+
qed

lemma run_no_speech:
  assumes "\<not> hasReceivedSpeech s" "\<forall>e \<in> set evs. \<not> is_speech_start e"
  shows "\<not> hasReceivedSpeech (run evs s)
       \<and> (\<exists>new. trace (run evs s) = trace s @ new \<and> Emit ''timeout'' ''silence'' \<notin> set new)"
  using assms
proof (induction evs arbitrary: s)
  case Nil
  then show ?case by simp
next
  case (Cons e evs)
  from Cons.prems have e: "\<not> is_speech_start e" and es: "\<forall>e \<in> set evs. \<not> is_speech_start e"
    by simp_all
  from step_no_speech[OF Cons.prems(1) e] obtain n1 where
    1: "\<not> hasReceivedSpeech (step e s)" "trace (step e s) = trace s @ n1"
       "Emit ''timeout'' ''silence'' \<notin> set n1" by blast
  from Cons.IH[OF 1(1) es] obtain n2 where
    2: "\<not> hasReceivedSpeech (run evs (step e s))"
       "trace (run evs (step e s)) = trace (step e s) @ n2"
       "Emit ''timeout'' ''silence'' \<notin> set n2" by blast
  have "trace (run (e # evs) s) = trace s @ (n1 @ n2)" using 1(2) 2(2) by simp
  moreover have "Emit ''timeout'' ''silence'' \<notin> set (n1 @ n2)" using 1(3) 2(3) by simp
  ultimately show ?case using 2(1) by (metis run.simps(2))
qed

lemma max_timer_fires:
  assumes "isListening s" "map_of (timers s) tid = Some (delay, MaxRecordingExpired)"
  shows "step (TimerFires tid) s = emit ''timeout'' ''max_recording_time'' (stop (clearTimeout tid s))"
    "trace (step (TimerFires tid) s) =
       trace s @ RecognitionStop # (if hasMediaStream s then [StopTracks] else [])
         @ [Emit ''timeout'' ''max_recording_time'']"
  using assms by (simp_all add: timer_fires_def emit_def stop_fields)

lemma onstart_fields:
  "isListening (onstart now s)" "\<not> hasReceivedSpeech (onstart now s)"
  "maxRecordingTimer (onstart now s) = Some (nextTimerId s)"
  "map_of (timers (onstart now s)) (nextTimerId s) =
     (case map_of (timers s) (nextTimerId s) of
        None \<Rightarrow> Some (maxRecordingTime (options s), MaxRecordingExpired) | Some t \<Rightarrow> Some t)"
  by (simp_all add: onstart_def setTimeout_def emit_def map_add_def split: option.splits)

text \<open>
  Claim C8, as the code has it. \<open>start\<close> on a session whose flag \<open>isListening\<close> is set
  returns \<open>false\<close>: no error is raised, nothing is emitted, no second recognition is
  started, and the state, pending timers and trace included, is the one before the call.
  The flag is set by the recognizer's \<open>onstart\<close> event and not by \<open>start\<close> itself, so
  this says nothing about a second \<open>start\<close> that comes before that event.
\<close>

theorem start_while_listening:
  assumes "isListening s"
  shows "start env s = (Inr False, s)"
  using assms by (simp add: start_def)

theorem start_while_listening_witness:
  "isListening (run [CallStart \<lparr>microphoneGranted = True, recognitionStartThrows = None\<rparr>,
                     OnStart 0] (new_session default_options True))
   \<and> start \<lparr>microphoneGranted = True, recognitionStartThrows = None\<rparr>
         (run [CallStart \<lparr>microphoneGranted = True, recognitionStartThrows = None\<rparr>,
               OnStart 0] (new_session default_options True))
       = (Inr False,
          run [CallStart \<lparr>microphoneGranted = True, recognitionStartThrows = None\<rparr>,
               OnStart 0] (new_session default_options True))
   \<and> trace (run [CallStart \<lparr>microphoneGranted = True, recognitionStartThrows = None\<rparr>,
                  OnStart 0,
                  CallStart \<lparr>microphoneGranted = True, recognitionStartThrows = None\<rparr>]
             (new_session default_options True))
       = [Emit ''audioEnhanced'' [], RecognitionStart, Emit ''start'' []]"
proof -
  have l: "isListening (run [CallStart \<lparr>microphoneGranted = True, recognitionStartThrows = None\<rparr>,
                     OnStart 0] (new_session default_options True))"
    by (simp add: onstart_fields)
  have t: "trace (run [CallStart \<lparr>microphoneGranted = True, recognitionStartThrows = None\<rparr>,
                     OnStart 0] (new_session default_options True))
       = [Emit ''audioEnhanced'' [], RecognitionStart, Emit ''start'' []]"
    by (simp add: start_def setupAudioEnhancement_def onstart_def setTimeout_def emit_def
          call_def new_session_def)
  from start_while_listening[OF l] l t show ?thesis by simp
qed

text \<open>
  Two ways in which a second \<open>start\<close> differs from the specification. Once the
  recognizer has reported its start, the second \<open>start\<close> does not fail with
  \<open>AlreadyActiveError\<close>: it returns normally. And when the second \<open>start\<close> follows the
  first at once, before the recognizer's \<open>onstart\<close>, the flag is still unset and the
  guard is passed: the microphone is requested and \<open>recognition.start()\<close> is called a
  second time. With a recognizer that accepts the call, \<open>start\<close> returns \<open>true\<close> and two
  recognitions have been started; with one that throws, as browsers do for a recognition
  already started, \<open>start\<close> returns \<open>false\<close> after emitting \<open>audioEnhanced\<close> and
  \<open>error\<close>, so the state is not the one the first \<open>start\<close> left.
\<close>

theorem start_while_listening_counterexample:
  "isListening (run [CallStart \<lparr>microphoneGranted = True, recognitionStartThrows = None\<rparr>,
                     OnStart 0] (new_session default_options True))
   \<and> fst (start \<lparr>microphoneGranted = True, recognitionStartThrows = None\<rparr>
         (run [CallStart \<lparr>microphoneGranted = True, recognitionStartThrows = None\<rparr>,
               OnStart 0] (new_session default_options True)))
       \<noteq> Inl AlreadyActiveError
   \<and> \<not> isListening (run [CallStart \<lparr>microphoneGranted = True, recognitionStartThrows = None\<rparr>]
                       (new_session default_options True))
   \<and> fst (start \<lparr>microphoneGranted = True, recognitionStartThrows = None\<rparr>
         (run [CallStart \<lparr>microphoneGranted = True, recognitionStartThrows = None\<rparr>]
              (new_session default_options True)))
       = Inr True
   \<and> trace (run [CallStart \<lparr>microphoneGranted = True, recognitionStartThrows = None\<rparr>,
                  CallStart \<lparr>microphoneGranted = True, recognitionStartThrows = None\<rparr>]
             (new_session default_options True))
       = [Emit ''audioEnhanced'' [], RecognitionStart,
          Emit ''audioEnhanced'' [], RecognitionStart]
   \<and> fst (start \<lparr>microphoneGranted = True,
                   recognitionStartThrows = Some ''recognition has already started''\<rparr>
         (run [CallStart \<lparr>microphoneGranted = True, recognitionStartThrows = None\<rparr>]
              (new_session default_options True)))
       = Inr False
   \<and> trace (run [CallStart \<lparr>microphoneGranted = True, recognitionStartThrows = None\<rparr>,
                  CallStart \<lparr>microphoneGranted = True,
                    recognitionStartThrows = Some ''recognition has already started''\<rparr>]
             (new_session default_options True))
       = [Emit ''audioEnhanced'' [], RecognitionStart,
          Emit ''audioEnhanced'' [], Emit ''error'' ''start_failed'']"
  by (simp add: start_def setupAudioEnhancement_def onstart_def setTimeout_def emit_def
        call_def new_session_def)

text \<open>
  Claim C9, as the code has it. After the recognizer has reported its start, and as long
  as no \<open>speechstart\<close> arrives, whatever else happens (timers firing, \<open>speechend\<close>,
  \<open>end\<close>, a new start, calls of \<open>start\<close>, \<open>stop\<close> and \<open>abort\<close>), the flag
  \<open>hasReceivedSpeech\<close> stays false and no \<open>timeout\<close> event with reason \<open>silence\<close> is
  emitted. When the max-recording timer then fires while the session is listening, the
  controller asks the recognizer to stop, stops the media tracks if there are any, and
  emits \<open>timeout\<close> with the reason \<open>max_recording_time\<close>. A silence timer that fires
  does nothing but leave the pending timers, and a timer that fires when the session is
  not listening emits nothing.
\<close>

theorem session_without_speech:
  assumes "\<forall>e \<in> set evs. \<not> is_speech_start e"
  shows "\<not> hasReceivedSpeech (run evs (onstart now s0))
     \<and> (\<exists>new. trace (run evs (onstart now s0)) = trace (onstart now s0) @ new
               \<and> Emit ''timeout'' ''silence'' \<notin> set new)
     \<and> (\<forall>tid delay.
           isListening (run evs (onstart now s0))
           \<and> map_of (timers (run evs (onstart now s0))) tid = Some (delay, MaxRecordingExpired)
           \<longrightarrow> trace (step (TimerFires tid) (run evs (onstart now s0)))
                 = trace (run evs (onstart now s0))
                   @ RecognitionStop
                     # (if hasMediaStream (run evs (onstart now s0)) then [StopTracks] else [])
                   @ [Emit ''timeout'' ''max_recording_time''])
     \<and> (\<forall>tid delay.
           map_of (timers (run evs (onstart now s0))) tid = Some (delay, SilenceExpired)
           \<longrightarrow> step (TimerFires tid) (run evs (onstart now s0))
                 = clearTimeout tid (run evs (onstart now s0)))
     \<and> (\<forall>tid. \<not> isListening (run evs (onstart now s0))
           \<longrightarrow> trace (step (TimerFires tid) (run evs (onstart now s0)))
                 = trace (run evs (onstart now s0)))"
proof -
  let ?s = "run evs (onstart now s0)"
  have "\<not> hasReceivedSpeech (onstart now s0)" by (rule onstart_fields)
  from run_no_speech[OF this assms]
  have 1: "\<not> hasReceivedSpeech ?s
     \<and> (\<exists>new. trace ?s = trace (onstart now s0) @ new \<and> Emit ''timeout'' ''silence'' \<notin> set new)" .
  have 2: "trace (step (TimerFires tid) ?s)
             = trace ?s @ RecognitionStop # (if hasMediaStream ?s then [StopTracks] else [])
                 @ [Emit ''timeout'' ''max_recording_time'']"
    if "isListening ?s \<and> map_of (timers ?s) tid = Some (delay, MaxRecordingExpired)"
    for tid delay
    using max_timer_fires(2)[of ?s tid delay] that by blast
  have 3: "trace (step (TimerFires tid) ?s) = trace ?s" if "\<not> isListening ?s" for tid
  proof (cases "map_of (timers ?s) tid")
    case None
    then show ?thesis by (simp add: timer_fires_def)
  next
    case (Some dc)
    obtain delay cb where "dc = (delay, cb)" by (cases dc)
    with Some that show ?thesis by (cases cb) (simp_all add: timer_fires_def)
  qed
  have 4: "step (TimerFires tid) ?s = clearTimeout tid ?s"
    if "map_of (timers ?s) tid = Some (delay, SilenceExpired)" for tid delay
    using that 1 by (simp add: timer_fires_def)
  from 1 2 3 4 show ?thesis by blast
qed

lemmas session_defs = onstart_def onend_def onspeechend_def onspeechstart_def timer_fires_def
  setTimeout_def clearTimeout_def emit_def call_def new_session_def default_options_def
  startSilenceTimer_def clearSilenceTimer_def clearTimers_def stop_def
  cleanupAudioEnhancement_def Let_def

lemma silent_session_example:
  "isListening (run [OnSpeechEnd 5, TimerFires 2] (onstart 0 (new_session default_options False)))"
  "map_of (timers (run [OnSpeechEnd 5, TimerFires 2] (onstart 0 (new_session default_options False)))) 1
     = Some (15000, MaxRecordingExpired)"
  "trace (run [OnSpeechEnd 5, TimerFires 2] (onstart 0 (new_session default_options False)))
     = [Emit ''start'' [], Emit ''speechend'' []]"
  "hasMediaStream (run [OnSpeechEnd 5, TimerFires 2] (onstart 0 (new_session default_options False)))
     = False"
  by (simp_all add: session_defs)

theorem session_without_speech_witness:
  "list_all (\<lambda>e. \<not> is_speech_start e) [OnSpeechEnd 5, TimerFires 2]
   \<and> isListening (run [OnSpeechEnd 5, TimerFires 2] (onstart 0 (new_session default_options False)))
   \<and> trace (step (TimerFires 1)
        (run [OnSpeechEnd 5, TimerFires 2] (onstart 0 (new_session default_options False))))
      = [Emit ''start'' [], Emit ''speechend'' [], RecognitionStop,
         Emit ''timeout'' ''max_recording_time'']"
proof -
  have h: "\<forall>e \<in> set [OnSpeechEnd 5, TimerFires 2]. \<not> is_speech_start e" by simp
  from session_without_speech[OF h, of 0 "new_session default_options False"]
  have "isListening (run [OnSpeechEnd 5, TimerFires 2] (onstart 0 (new_session default_options False)))
           \<and> map_of (timers (run [OnSpeechEnd 5, TimerFires 2]
                 (onstart 0 (new_session default_options False)))) 1
               = Some (15000, MaxRecordingExpired)
           \<longrightarrow> trace (step (TimerFires 1) (run [OnSpeechEnd 5, TimerFires 2]
                 (onstart 0 (new_session default_options False))))
                 = trace (run [OnSpeechEnd 5, TimerFires 2]
                     (onstart 0 (new_session default_options False)))
                   @ RecognitionStop
                     # (if hasMediaStream (run [OnSpeechEnd 5, TimerFires 2]
                           (onstart 0 (new_session default_options False)))
                        then [StopTracks] else [])
                   @ [Emit ''timeout'' ''max_recording_time'']"
    by blast
  with silent_session_example h show ?thesis by simp
qed

text \<open>
  The reason of the time-out is not \<open>max_duration\<close>: in a session that starts, hears no
  speech and runs into the max-recording timer, the event emitted is \<open>timeout\<close> with
  \<open>max_recording_time\<close>.
\<close>

theorem session_without_speech_counterexample:
  "isListening (run [OnStart 0] (new_session default_options False))
   \<and> \<not> hasReceivedSpeech (run [OnStart 0] (new_session default_options False))
   \<and> trace (run [OnStart 0, TimerFires 1] (new_session default_options False))
      = [Emit ''start'' [], RecognitionStop, Emit ''timeout'' ''max_recording_time'']
   \<and> Emit ''timeout'' ''max_duration''
        \<notin> set (trace (run [OnStart 0, TimerFires 1] (new_session default_options False)))"
  by (simp add: session_defs)

end
